theory Spec2Isabelle
  imports Complex_Main "HOL-Library.Word"
begin

unbundle bit_operations_syntax

section \<open>Python values\<close>

text \<open>
  The program is \<^verbatim>\<open>cmake/scripts/generate_resources.py\<close>. A Python \<^verbatim>\<open>str\<close> is a sequence of
  Unicode code points; a code point is modelled as a natural number, so a string is a list of
  naturals. A lone surrogate (U+D800 to U+DFFF) is a legal element of a \<^verbatim>\<open>str\<close>: on POSIX, the
  name of a file whose bytes are not UTF-8 reaches the program with such elements.
  \<open>lit\<close> embeds an ASCII literal of the source.
\<close>

type_synonym pychar = nat
type_synonym pystr = "pychar list"
type_synonym byte = "8 word"

definition lit :: "string \<Rightarrow> pystr" where
  "lit s = map of_char s"

datatype error = IndexError | UnicodeEncodeError | ValueError | OSError

text \<open>
  A Python \<^verbatim>\<open>float\<close> is a binary64 value: a number with 53 significant bits, or infinity (the
  program makes no negative value and no NaN). \<^verbatim>\<open>float\<close> of the decimal digits of a natural
  number is the nearest such value, the one with an even last bit when two are equally
  near, and \<^verbatim>\<open>inf\<close> when rounding reaches \<open>2\<^sup>1\<^sup>0\<^sup>2\<^sup>4\<close>; it does not raise. \<open>bit_length\<close> is
  \<^verbatim>\<open>int.bit_length\<close>.
\<close>

datatype pyfloat = Float real | Infinity

fun bit_length :: "nat \<Rightarrow> nat" where
  "bit_length n = (if n = 0 then 0 else Suc (bit_length (n div 2)))"

declare bit_length.simps [simp del]

definition float_of_nat :: "nat \<Rightarrow> pyfloat" where
  "float_of_nat n =
     (if bit_length n \<le> 53 then Float (real n)
      else
        let e = bit_length n - 53;
            q = n div 2 ^ e;
            r = n mod 2 ^ e;
            half = 2 ^ (e - 1);
            m = (if half < r \<or> (r = half \<and> odd q) then q + 1 else q)
        in if 2 ^ 1024 \<le> m * 2 ^ e then Infinity else Float (real (m * 2 ^ e)))"

text \<open>
  What the program takes from the Python runtime and what is not ASCII: the classification
  of the code points from U+0080 on (\<^verbatim>\<open>str.isalpha\<close>, \<^verbatim>\<open>str.isalnum\<close>, the decimal digits that
  \<^verbatim>\<open>\d\<close> matches and \<^verbatim>\<open>float\<close> reads), and the text \<^verbatim>\<open>repr\<close> gives a float. They are a parameter of
  the model; on ASCII the classification is written out below.
\<close>

record python =
  isalpha_beyond :: "pychar \<Rightarrow> bool"
  isalnum_beyond :: "pychar \<Rightarrow> bool"
  decimal_beyond :: "pychar \<Rightarrow> nat option"
  float_repr :: "pyfloat \<Rightarrow> pystr"

definition isalpha :: "python \<Rightarrow> pychar \<Rightarrow> bool" where
  "isalpha P c =
     (if c < 128 then (65 \<le> c \<and> c \<le> 90) \<or> (97 \<le> c \<and> c \<le> 122) else isalpha_beyond P c)"

definition isalnum :: "python \<Rightarrow> pychar \<Rightarrow> bool" where
  "isalnum P c =
     (if c < 128 then (48 \<le> c \<and> c \<le> 57) \<or> (65 \<le> c \<and> c \<le> 90) \<or> (97 \<le> c \<and> c \<le> 122)
      else isalnum_beyond P c)"

definition decimal_value :: "python \<Rightarrow> pychar \<Rightarrow> nat option" where
  "decimal_value P c =
     (if c < 128 then (if 48 \<le> c \<and> c \<le> 57 then Some (c - 48) else None)
      else decimal_beyond P c)"

definition is_decimal :: "python \<Rightarrow> pychar \<Rightarrow> bool" where
  "is_decimal P c = (decimal_value P c \<noteq> None)"

text \<open>
  The runtime on Latin-1: the letters, digits and fractions of U+0080 to U+00FF as the
  Unicode database classifies them, nothing beyond U+00FF, and the \<^verbatim>\<open>repr\<close> of a float that
  holds a whole number below \<open>10\<^sup>1\<^sup>6\<close> or is infinite. The closed evaluations below use it;
  they visit no code point above U+00FF other than a surrogate, which is in no class.
\<close>

fun str_nat :: "nat \<Rightarrow> pystr" where
  "str_nat n = (if n < 10 then [48 + n] else str_nat (n div 10) @ [48 + n mod 10])"

declare str_nat.simps [simp del]

definition latin1_alpha :: "pychar \<Rightarrow> bool" where
  "latin1_alpha c =
     (c = 170 \<or> c = 181 \<or> c = 186 \<or> (192 \<le> c \<and> c \<le> 214) \<or> (216 \<le> c \<and> c \<le> 246)
      \<or> (248 \<le> c \<and> c \<le> 255))"

definition latin1_numeric :: "pychar \<Rightarrow> bool" where
  "latin1_numeric c = (c = 178 \<or> c = 179 \<or> c = 185 \<or> (188 \<le> c \<and> c \<le> 190))"

definition python_latin1 :: python where
  "python_latin1 =
     \<lparr> isalpha_beyond = latin1_alpha,
       isalnum_beyond = (\<lambda>c. latin1_alpha c \<or> latin1_numeric c),
       decimal_beyond = (\<lambda>c. None),
       float_repr = (\<lambda>x. case x of Float r \<Rightarrow> str_nat (nat \<lfloor>r\<rfloor>) @ lit ''.0''
                          | Infinity \<Rightarrow> lit ''inf'') \<rparr>"

section \<open>Strings and paths\<close>

definition startswith :: "'a list \<Rightarrow> 'a list \<Rightarrow> bool" where
  "startswith s p = (take (length p) s = p)"

fun join :: "'a list \<Rightarrow> 'a list list \<Rightarrow> 'a list" where
  "join sep [] = []"
| "join sep [x] = x"
| "join sep (x # y # ys) = x @ sep @ join sep (y # ys)"

text \<open>\<^verbatim>\<open>s.split(c)\<close>: the pieces between the occurrences of \<open>c\<close>, one more than there are.\<close>

fun split_on :: "'a \<Rightarrow> 'a list \<Rightarrow> 'a list list" where
  "split_on c [] = [[]]"
| "split_on c (x # xs) =
     (if x = c then [] # split_on c xs
      else (case split_on c xs of [] \<Rightarrow> [[x]] | p # ps \<Rightarrow> (x # p) # ps))"

text \<open>\<^verbatim>\<open>s.rfind(c)\<close>, with \<open>None\<close> for Python's \<open>-1\<close>.\<close>

definition rfind :: "'a \<Rightarrow> 'a list \<Rightarrow> nat option" where
  "rfind c s =
     (if c \<in> set s then Some (length s - 1 - length (takeWhile (\<lambda>x. x \<noteq> c) (rev s))) else None)"

text \<open>
  \<^verbatim>\<open>Path(name).name\<close> for a string, in the POSIX flavour: the last component that is neither
  empty nor \<^verbatim>\<open>.\<close>, and the empty string when there is none. \<^verbatim>\<open>Path.stem\<close> is the name up to its
  last dot, when that dot is neither the first nor the last character (pathlib through
  Python 3.13).
\<close>

definition path_name :: "pystr \<Rightarrow> pystr" where
  "path_name s =
     (case filter (\<lambda>c. c \<noteq> [] \<and> c \<noteq> lit ''.'') (split_on 47 s) of
        [] \<Rightarrow> []
      | c # cs \<Rightarrow> last (c # cs))"

definition name_stem :: "pystr \<Rightarrow> pystr" where
  "name_stem name =
     (case rfind 46 name of
        None \<Rightarrow> name
      | Some i \<Rightarrow> if 0 < i \<and> i + 1 < length name then take i name else name)"

section \<open>UTF-8 and MD5\<close>

text \<open>
  \<^verbatim>\<open>name.encode('utf-8')\<close>. A surrogate has no encoding: Python raises
  \<^verbatim>\<open>UnicodeEncodeError\<close>. No \<^verbatim>\<open>str\<close> holds a number from \<open>0x110000\<close> on.
\<close>

definition utf8_char :: "pychar \<Rightarrow> error + byte list" where
  "utf8_char c =
     (if c < 0x80 then Inr [of_nat c]
      else if c < 0x800 then Inr [of_nat (0xC0 + c div 64), of_nat (0x80 + c mod 64)]
      else if 0xD800 \<le> c \<and> c < 0xE000 then Inl UnicodeEncodeError
      else if c < 0x10000 then
        Inr [of_nat (0xE0 + c div 4096), of_nat (0x80 + c div 64 mod 64), of_nat (0x80 + c mod 64)]
      else if c < 0x110000 then
        Inr [of_nat (0xF0 + c div 262144), of_nat (0x80 + c div 4096 mod 64),
             of_nat (0x80 + c div 64 mod 64), of_nat (0x80 + c mod 64)]
      else Inl UnicodeEncodeError)"

fun utf8_encode :: "pystr \<Rightarrow> error + byte list" where
  "utf8_encode [] = Inr []"
| "utf8_encode (c # cs) =
     (case utf8_char c of
        Inl e \<Rightarrow> Inl e
      | Inr bs \<Rightarrow> (case utf8_encode cs of Inl e \<Rightarrow> Inl e | Inr rest \<Rightarrow> Inr (bs @ rest)))"

text \<open>
  \<^verbatim>\<open>hashlib.md5\<close>, after RFC 1321: the message is padded with \<open>0x80\<close>, zeros and its length in
  bits as 64 bits, least significant byte first, to a multiple of 64 bytes; each block of 16
  little-endian words goes through 64 steps, in four rounds.
\<close>

definition md5_K :: "32 word list" where
  "md5_K =
     [0xd76aa478, 0xe8c7b756, 0x242070db, 0xc1bdceee, 0xf57c0faf, 0x4787c62a, 0xa8304613, 0xfd469501,
      0x698098d8, 0x8b44f7af, 0xffff5bb1, 0x895cd7be, 0x6b901122, 0xfd987193, 0xa679438e, 0x49b40821,
      0xf61e2562, 0xc040b340, 0x265e5a51, 0xe9b6c7aa, 0xd62f105d, 0x02441453, 0xd8a1e681, 0xe7d3fbc8,
      0x21e1cde6, 0xc33707d6, 0xf4d50d87, 0x455a14ed, 0xa9e3e905, 0xfcefa3f8, 0x676f02d9, 0x8d2a4c8a,
      0xfffa3942, 0x8771f681, 0x6d9d6122, 0xfde5380c, 0xa4beea44, 0x4bdecfa9, 0xf6bb4b60, 0xbebfbc70,
      0x289b7ec6, 0xeaa127fa, 0xd4ef3085, 0x04881d05, 0xd9d4d039, 0xe6db99e5, 0x1fa27cf8, 0xc4ac5665,
      0xf4292244, 0x432aff97, 0xab9423a7, 0xfc93a039, 0x655b59c3, 0x8f0ccc92, 0xffeff47d, 0x85845dd1,
      0x6fa87e4f, 0xfe2ce6e0, 0xa3014314, 0x4e0811a1, 0xf7537e82, 0xbd3af235, 0x2ad7d2bb, 0xeb86d391]"

definition md5_S :: "nat list" where
  "md5_S =
     [7, 12, 17, 22, 7, 12, 17, 22, 7, 12, 17, 22, 7, 12, 17, 22,
      5, 9, 14, 20, 5, 9, 14, 20, 5, 9, 14, 20, 5, 9, 14, 20,
      4, 11, 16, 23, 4, 11, 16, 23, 4, 11, 16, 23, 4, 11, 16, 23,
      6, 10, 15, 21, 6, 10, 15, 21, 6, 10, 15, 21, 6, 10, 15, 21]"

definition rotl32 :: "nat \<Rightarrow> 32 word \<Rightarrow> 32 word" where
  "rotl32 n w = push_bit n w OR drop_bit (32 - n) w"

definition md5_pad :: "byte list \<Rightarrow> byte list" where
  "md5_pad bs =
     (let n = length bs;
          zeros = (55 + 64 - n mod 64) mod 64;
          bits = (of_nat (8 * n) :: 64 word)
      in bs @ [0x80] @ replicate zeros 0 @ map (\<lambda>i. ucast (drop_bit (8 * i) bits)) [0..<8])"

fun le32 :: "byte list \<Rightarrow> 32 word" where
  "le32 [b0, b1, b2, b3] =
     ucast b0 OR push_bit 8 (ucast b1) OR push_bit 16 (ucast b2) OR push_bit 24 (ucast b3)"
| "le32 _ = 0"

fun chunks :: "nat \<Rightarrow> 'a list \<Rightarrow> 'a list list" where
  "chunks n [] = []"
| "chunks n (x # xs) =
     (if n = 0 then [x # xs] else take n (x # xs) # chunks n (drop n (x # xs)))"

type_synonym md5_state = "32 word \<times> 32 word \<times> 32 word \<times> 32 word"

definition md5_step :: "32 word list \<Rightarrow> md5_state \<Rightarrow> nat \<Rightarrow> md5_state" where
  "md5_step M st i =
     (case st of (A, B, C, D) \<Rightarrow>
        let (F, g) =
              (if i < 16 then ((B AND C) OR (NOT B AND D), i)
               else if i < 32 then ((D AND B) OR (NOT D AND C), (5 * i + 1) mod 16)
               else if i < 48 then (B XOR C XOR D, (3 * i + 5) mod 16)
               else (C XOR (B OR NOT D), (7 * i) mod 16));
            F' = F + A + md5_K ! i + M ! g
        in (D, B + rotl32 (md5_S ! i) F', B, C))"

definition md5_block :: "md5_state \<Rightarrow> byte list \<Rightarrow> md5_state" where
  "md5_block st block =
     (let M = map le32 (chunks 4 block) in
      case (st, foldl (md5_step M) st [0..<64]) of
        ((a0, b0, c0, d0), (A, B, C, D)) \<Rightarrow> (a0 + A, b0 + B, c0 + C, d0 + D))"

definition bytes_le32 :: "32 word \<Rightarrow> byte list" where
  "bytes_le32 w = map (\<lambda>i. ucast (drop_bit (8 * i) w)) [0..<4]"

definition md5 :: "byte list \<Rightarrow> byte list" where
  "md5 bs =
     (case foldl md5_block (0x67452301, 0xefcdab89, 0x98badcfe, 0x10325476) (chunks 64 (md5_pad bs)) of
        (a, b, c, d) \<Rightarrow> bytes_le32 a @ bytes_le32 b @ bytes_le32 c @ bytes_le32 d)"

text \<open>\<^verbatim>\<open>hexdigest()\<close>, and \<^verbatim>\<open>f'0x{b:02x}'\<close>: two lowercase hexadecimal digits a byte.\<close>

definition hex_digit :: "nat \<Rightarrow> pychar" where
  "hex_digit d = (if d < 10 then 48 + d else 87 + d)"

definition hex2 :: "byte \<Rightarrow> pystr" where
  "hex2 b = [hex_digit (unat b div 16), hex_digit (unat b mod 16)]"

definition hexdigest :: "byte list \<Rightarrow> pystr" where
  "hexdigest digest = concat (map hex2 digest)"

section \<open>The scale parser and the identifier sanitizer\<close>

text \<open>
  \<^verbatim>\<open>re.search(r'@(\d+)x\.(png|jpg|jpeg|bmp)', filename, re.IGNORECASE)\<close>. \<open>match_at\<close> is the
  attempt at one starting position and gives group 1. The digits \<^verbatim>\<open>\d+\<close> takes are the whole run
  after the \<^verbatim>\<open>@\<close>: when fewer are taken the next character is a digit, and \<^verbatim>\<open>x\<close> does not match
  it. Under \<^verbatim>\<open>IGNORECASE\<close> each letter of the pattern matches itself and its capital and nothing
  else. \<^verbatim>\<open>search\<close> tries the positions from the left and stops at the first that matches.
\<close>

definition ci_char :: "pychar \<Rightarrow> pychar \<Rightarrow> bool" where
  "ci_char x c = (c = x \<or> c + 32 = x)"

definition ci_startswith :: "pystr \<Rightarrow> pystr \<Rightarrow> bool" where
  "ci_startswith s p = (length p \<le> length s \<and> list_all2 ci_char p (take (length p) s))"

definition image_extensions :: "pystr list" where
  "image_extensions = [lit ''png'', lit ''jpg'', lit ''jpeg'', lit ''bmp'']"

definition match_at :: "python \<Rightarrow> pystr \<Rightarrow> pystr option" where
  "match_at P s =
     (case s of
        [] \<Rightarrow> None
      | c # r \<Rightarrow>
          if c \<noteq> 64 then None
          else
            let digits = takeWhile (is_decimal P) r;
                rest = dropWhile (is_decimal P) r
            in if digits = [] then None
               else (case rest of
                       x # dot # e \<Rightarrow>
                         if ci_char 120 x \<and> dot = 46
                            \<and> list_ex (ci_startswith e) image_extensions
                         then Some digits else None
                     | _ \<Rightarrow> None))"

fun re_search :: "python \<Rightarrow> pystr \<Rightarrow> pystr option" where
  "re_search P [] = match_at P []"
| "re_search P (c # s) =
     (case match_at P (c # s) of Some g \<Rightarrow> Some g | None \<Rightarrow> re_search P s)"

text \<open>
  \<^verbatim>\<open>float(match.group(1))\<close>: the number the decimal digits write, as a float. \<^verbatim>\<open>float\<close> raises on
  no string that \<^verbatim>\<open>\d+\<close> matches.
\<close>

definition int_of_digits :: "python \<Rightarrow> pystr \<Rightarrow> nat" where
  "int_of_digits P ds =
     foldl (\<lambda>a c. 10 * a + (case decimal_value P c of Some v \<Rightarrow> v | None \<Rightarrow> 0)) 0 ds"

definition parse_design_scale :: "python \<Rightarrow> pystr \<Rightarrow> pyfloat" where
  "parse_design_scale P filename =
     (case re_search P filename of
        Some g \<Rightarrow> float_of_nat (int_of_digits P g)
      | None \<Rightarrow> Float 1)"

definition sanitize_identifier :: "python \<Rightarrow> pystr \<Rightarrow> error + pystr" where
  "sanitize_identifier P name =
     (let stem = name_stem (path_name name) in
      case utf8_encode name of
        Inl e \<Rightarrow> Inl e
      | Inr encoded \<Rightarrow>
          let hash_suffix = take 8 (hexdigest (md5 encoded));
              sanitized = map (\<lambda>c. if isalnum P c \<or> c = 95 then c else 95) stem
          in (case sanitized of
                [] \<Rightarrow> Inl IndexError
              | c # _ \<Rightarrow>
                  Inr ((if \<not> isalpha P c then lit ''res_'' @ sanitized else sanitized)
                       @ lit ''_'' @ hash_suffix)))"

section \<open>The file system\<close>

text \<open>
  A snapshot of the file system, as a tree from its root. A regular file has its bytes, its
  modification time and whether this process may read it. A directory \<open>Dir listable link\<close>
  has its entries in the order \<^verbatim>\<open>os.scandir\<close> gives them; \<open>listable\<close> says whether this process may
  list them (the read permission of the directory), \<open>link\<close> whether the name in its parent is
  a symbolic link to the directory. Anything else (a socket, a dangling link) is \<open>Special\<close>.
  A directory and a special file carry what \<^verbatim>\<open>stat\<close> reports as size and time. A path is the
  list of its components from the root. A link to a regular file stands as the file, which
  is how \<^verbatim>\<open>is_file\<close>, \<^verbatim>\<open>open\<close> and \<^verbatim>\<open>stat\<close> see it. Every directory of the tree can be searched: a
  name in it resolves, through links too, whether or not the directory can be listed.
\<close>

type_synonym path = "pystr list"

datatype entry =
    File bool "byte list" real
  | Dir bool bool "(pystr \<times> entry) list" "nat \<times> real"
  | Special "nat \<times> real"

fun lookup :: "entry \<Rightarrow> path \<Rightarrow> entry option" where
  "lookup e [] = Some e"
| "lookup (Dir listable link kids st) (n # p) =
     (case map_of kids n of None \<Rightarrow> None | Some e \<Rightarrow> lookup e p)"
| "lookup _ (n # p) = None"

fun is_file :: "entry \<Rightarrow> bool" where
  "is_file (File _ _ _) = True"
| "is_file _ = False"

text \<open>\<^verbatim>\<open>open(file_path, 'rb').read()\<close> and \<^verbatim>\<open>file_path.stat()\<close>.\<close>

definition read_bytes :: "entry \<Rightarrow> path \<Rightarrow> error + byte list" where
  "read_bytes fs p =
     (case lookup fs p of
        Some (File readable data _) \<Rightarrow> if readable then Inr data else Inl OSError
      | _ \<Rightarrow> Inl OSError)"

definition stat :: "entry \<Rightarrow> path \<Rightarrow> error + nat \<times> real" where
  "stat fs p =
     (case lookup fs p of
        None \<Rightarrow> Inl OSError
      | Some (File _ data mtime) \<Rightarrow> Inr (length data, mtime)
      | Some (Dir _ _ _ st) \<Rightarrow> Inr st
      | Some (Special st) \<Rightarrow> Inr st)"

text \<open>
  \<^verbatim>\<open>input_dir.rglob('*')\<close>: the entries of the directory, hidden ones too, each with its path,
  then what the walk yields below each of its subdirectories (the order of pathlib through
  Python 3.12; what is proved below about the collector's loop holds for every order). The
  walk descends into the entries that \<^verbatim>\<open>entry.is_dir(follow_symlinks=False)\<close> holds of: a link to
  a directory is yielded and not entered. Listing a directory that may not be listed raises
  \<^verbatim>\<open>PermissionError\<close> inside pathlib, which drops it: the walk yields nothing of that
  directory and goes on. The input directory itself is entered when it is a link. On what
  is not a directory the walk yields nothing.
\<close>

fun descends :: "entry \<Rightarrow> bool" where
  "descends (Dir listable link kids st) = (\<not> link)"
| "descends _ = False"

fun rglob :: "path \<Rightarrow> entry \<Rightarrow> (path \<times> entry) list" where
  "rglob p (Dir listable link kids st) =
     (if listable then
        map (\<lambda>(n, e). (p @ [n], e)) kids
        @ concat (map (\<lambda>(n, e). if descends e then rglob (p @ [n]) e else []) kids)
      else [])"
| "rglob p _ = []"

text \<open>\<^verbatim>\<open>Path.name\<close>, \<^verbatim>\<open>Path.relative_to\<close> and \<^verbatim>\<open>Path.as_posix\<close> on a path.\<close>

definition basename :: "path \<Rightarrow> pystr" where
  "basename p = (case p of [] \<Rightarrow> [] | n # ns \<Rightarrow> last (n # ns))"

definition relative_to :: "path \<Rightarrow> path \<Rightarrow> error + path" where
  "relative_to p base =
     (if startswith p base then Inr (drop (length base) p) else Inl ValueError)"

definition as_posix :: "path \<Rightarrow> pystr" where
  "as_posix p = (case p of [] \<Rightarrow> lit ''.'' | n # ns \<Rightarrow> join (lit ''/'') (n # ns))"

section \<open>The collector\<close>

text \<open>
  The resource mapping is a Python \<^verbatim>\<open>dict\<close>: the pairs in the order of their first insertion.
  \<open>dict_set\<close> is \<^verbatim>\<open>resources[k] = v\<close>: it replaces the value of a key that is there and keeps
  its place, and adds a new key at the end.
\<close>

type_synonym resource = "path \<times> pystr \<times> pyfloat"
type_synonym resources = "(pystr \<times> resource) list"

fun dict_set :: "('k \<times> 'v) list \<Rightarrow> 'k \<Rightarrow> 'v \<Rightarrow> ('k \<times> 'v) list" where
  "dict_set [] k v = [(k, v)]"
| "dict_set ((k', v') # kvs) k v =
     (if k' = k then (k, v) # kvs else (k', v') # dict_set kvs k v)"

definition dict_keys :: "('k \<times> 'v) list \<Rightarrow> 'k list" where
  "dict_keys d = map fst d"

text \<open>The candidate \<^verbatim>\<open>f"{original_identifier}_{counter}"\<close>.\<close>

definition suffixed :: "pystr \<Rightarrow> nat \<Rightarrow> pystr" where
  "suffixed original counter = original @ lit ''_'' @ str_nat counter"

text \<open>Python's \<^verbatim>\<open>str\<close> of a natural number is read back by the digits' values.\<close>

lemma str_nat_value:
  "foldl (\<lambda>a c. 10 * a + (c - 48)) 0 (str_nat n) = n"
proof (induction n rule: str_nat.induct)
  case (1 n)
  show ?case
  proof (cases "n < 10")
    case True
    then show ?thesis by (simp add: str_nat.simps [of n])
  next
    case False
    with 1 show ?thesis by (simp add: str_nat.simps [of n])
  qed
qed

lemma str_nat_inj: "str_nat a = str_nat b \<Longrightarrow> a = b"
  by (metis str_nat_value)

lemma suffixed_inj: "suffixed original a = suffixed original b \<Longrightarrow> a = b"
  by (simp add: suffixed_def str_nat_inj)

lemma finite_suffixed_in: "finite {j. suffixed original j \<in> A}" if "finite A"
proof -
  have "inj (suffixed original)"
    by (rule injI) (rule suffixed_inj)
  then have "finite (suffixed original -` A)"
    using that by (rule finite_vimageI [rotated])
  then show ?thesis by (simp add: vimage_def)
qed

lemma later_candidates_step:
  "{j. counter \<le> j \<and> suffixed original j \<in> A} =
     (if suffixed original counter \<in> A
      then insert counter {j. Suc counter \<le> j \<and> suffixed original j \<in> A}
      else {j. Suc counter \<le> j \<and> suffixed original j \<in> A})"
  by (auto simp: Suc_le_eq le_less)

text \<open>
  The loop \<^verbatim>\<open>while identifier in resources: identifier = f"{original_identifier}_{counter}";
  counter += 1\<close>, on its two variables. It ends: the candidates differ from one another and
  the mapping holds finitely many of them.
\<close>

function resolve_collision :: "(pystr \<times> 'v) list \<Rightarrow> pystr \<Rightarrow> pystr \<Rightarrow> nat \<Rightarrow> pystr" where
  "resolve_collision resources original_identifier identifier counter =
     (if identifier \<in> set (dict_keys resources)
      then resolve_collision resources original_identifier
             (suffixed original_identifier counter) (counter + 1)
      else identifier)"
  by pat_completeness auto
termination
proof (relation "measure (\<lambda>(resources, original, identifier, counter).
    card {j. counter \<le> j \<and> suffixed original j \<in> set (dict_keys resources)}
    + (if identifier \<in> set (dict_keys resources) then 1 else 0))")
  show "wf (measure (\<lambda>(resources :: (pystr \<times> 'v) list, original, identifier, counter).
    card {j. counter \<le> j \<and> suffixed original j \<in> set (dict_keys resources)}
    + (if identifier \<in> set (dict_keys resources) then 1 else 0)))"
    by simp
next
  fix resources :: "(pystr \<times> 'v) list" and original ident :: pystr and counter :: nat
  assume "ident \<in> set (dict_keys resources)"
  let ?A = "set (dict_keys resources)"
  let ?later = "{j. Suc counter \<le> j \<and> suffixed original j \<in> ?A}"
  have fin: "finite ?later"
    using finite_suffixed_in [of ?A original] by simp
  have "counter \<notin> ?later" by simp
  with fin have "card (insert counter ?later) = Suc (card ?later)"
    by (rule card_insert_disjoint)
  with \<open>ident \<in> ?A\<close>
  show "((resources, original, suffixed original counter, counter + 1),
         (resources, original, ident, counter))
        \<in> measure (\<lambda>(resources, original, identifier, counter).
            card {j. counter \<le> j \<and> suffixed original j \<in> set (dict_keys resources)}
            + (if identifier \<in> set (dict_keys resources) then 1 else 0))"
    by (simp add: later_candidates_step [of counter original ?A])
qed

declare resolve_collision.simps [simp del]

text \<open>The body of \<^verbatim>\<open>for file_path in input_dir.rglob('*')\<close>, and the loop.\<close>

definition collect_file :: "python \<Rightarrow> path \<Rightarrow> resources \<Rightarrow> path \<times> entry \<Rightarrow> error + resources" where
  "collect_file P input_dir resources f =
     (case f of (file_path, e) \<Rightarrow>
        if is_file e \<and> \<not> startswith (basename file_path) (lit ''.'') then
          (case relative_to file_path input_dir of
             Inl err \<Rightarrow> Inl err
           | Inr relative_path \<Rightarrow>
               let normalized_path = as_posix relative_path in
               (case sanitize_identifier P normalized_path of
                  Inl err \<Rightarrow> Inl err
                | Inr identifier \<Rightarrow>
                    let design_scale = parse_design_scale P (basename file_path);
                        unique = resolve_collision resources identifier identifier 1
                    in Inr (dict_set resources unique (file_path, normalized_path, design_scale))))
        else Inr resources)"

fun collect_loop :: "python \<Rightarrow> path \<Rightarrow> resources \<Rightarrow> (path \<times> entry) list \<Rightarrow> error + resources" where
  "collect_loop P input_dir resources [] = Inr resources"
| "collect_loop P input_dir resources (f # fs) =
     (case collect_file P input_dir resources f of
        Inl err \<Rightarrow> Inl err
      | Inr resources' \<Rightarrow> collect_loop P input_dir resources' fs)"

definition collect_resources :: "python \<Rightarrow> entry \<Rightarrow> path \<Rightarrow> error + resources" where
  "collect_resources P fs input_dir =
     (case lookup fs input_dir of
        None \<Rightarrow> Inr []
      | Some e \<Rightarrow> collect_loop P input_dir [] (rglob input_dir e))"

section \<open>The emitters\<close>

text \<open>
  Each emitter builds its text in a variable, piece after piece, and writes the file at the
  end. The pieces are the source's f-strings.
\<close>

definition header_prologue :: "pystr \<Rightarrow> pystr" where
  "header_prologue namespace =
     lit ''#pragma once\<newline>\<newline>'' @
     lit ''#include <cstddef>\<newline>'' @
     lit ''#include <string_view>\<newline>\<newline>'' @
     lit ''namespace '' @ namespace @ lit '' {\<newline>\<newline>'' @
     lit ''struct ResourceData {\<newline>'' @
     lit ''    const unsigned char* data;\<newline>'' @
     lit ''    size_t size;\<newline>'' @
     lit ''    std::string_view path;\<newline>'' @
     lit ''    float designScale;\<newline>'' @
     lit ''};\<newline>\<newline>''"

definition header_declaration :: "pystr \<Rightarrow> pystr" where
  "header_declaration identifier = lit ''extern const ResourceData '' @ identifier @ lit '';\<newline>''"

definition header_epilogue :: "pystr \<Rightarrow> pystr" where
  "header_epilogue namespace =
     lit ''\<newline>const ResourceData* findResource(std::string_view path);\<newline>'' @
     lit ''const ResourceData* getAllResources();\<newline>'' @
     lit ''size_t getResourceCount();\<newline>\<newline>'' @
     lit ''} // namespace '' @ namespace @ lit ''\<newline>''"

definition header_content :: "resources \<Rightarrow> pystr \<Rightarrow> pystr" where
  "header_content resources namespace =
     foldl (\<lambda>content (identifier, _). content @ header_declaration identifier)
       (header_prologue namespace) resources
     @ header_epilogue namespace"

definition source_prologue :: "pystr \<Rightarrow> pystr \<Rightarrow> pystr" where
  "source_prologue namespace header_name =
     lit ''#include '' @ [34] @ header_name @ [34] @ lit ''\<newline>'' @
     lit ''#include <array>\<newline>'' @
     lit ''#include <string_view>\<newline>'' @
     lit ''#include <algorithm>\<newline>\<newline>'' @
     lit ''namespace '' @ namespace @ lit '' {\<newline>\<newline>''"

text \<open>\<^verbatim>\<open>', '.join(f'0x{b:02x}' for b in data)\<close>\<close>

definition hex_data :: "byte list \<Rightarrow> pystr" where
  "hex_data data = join (lit '', '') (map (\<lambda>b. lit ''0x'' @ hex2 b) data)"

definition resource_definition :: "python \<Rightarrow> pystr \<Rightarrow> byte list \<Rightarrow> pystr \<Rightarrow> pyfloat \<Rightarrow> pystr" where
  "resource_definition P identifier data relative_path design_scale =
     lit ''static const unsigned char '' @ identifier @ lit ''_data[] = {\<newline>'' @
     lit ''    '' @ hex_data data @ lit ''\<newline>'' @
     lit ''};\<newline>\<newline>'' @
     lit ''const ResourceData '' @ identifier @ lit '' = {\<newline>'' @
     lit ''    '' @ identifier @ lit ''_data,\<newline>'' @
     lit ''    '' @ str_nat (length data) @ lit '',\<newline>'' @
     lit ''    '' @ [34] @ relative_path @ [34] @ lit '',\<newline>'' @
     lit ''    '' @ float_repr P design_scale @ lit ''f\<newline>'' @
     lit ''};\<newline>\<newline>''"

text \<open>
  The first loop of \<^verbatim>\<open>generate_source\<close>: it reads each file and adds its definition. A file
  that cannot be read raises, and the text built so far is lost with the call.
\<close>

fun source_definitions :: "python \<Rightarrow> entry \<Rightarrow> pystr \<Rightarrow> resources \<Rightarrow> error + pystr" where
  "source_definitions P fs content [] = Inr content"
| "source_definitions P fs content ((identifier, file_path, relative_path, design_scale) # rest) =
     (case read_bytes fs file_path of
        Inl err \<Rightarrow> Inl err
      | Inr data \<Rightarrow>
          source_definitions P fs
            (content @ resource_definition P identifier data relative_path design_scale) rest)"

definition source_array_open :: "nat \<Rightarrow> pystr" where
  "source_array_open n =
     lit ''static const std::array<ResourceData, '' @ str_nat n @ lit ''> all_resources = {{\<newline>''"

definition source_array_item :: "pystr \<Rightarrow> pystr" where
  "source_array_item identifier = lit ''    '' @ identifier @ lit '',\<newline>''"

definition source_epilogue :: "pystr \<Rightarrow> pystr" where
  "source_epilogue namespace =
     lit ''}};\<newline>\<newline>'' @
     lit ''const ResourceData* findResource(std::string_view path) {\<newline>'' @
     lit ''    auto it = std::find_if(all_resources.begin(), all_resources.end(),\<newline>'' @
     lit ''        [path](const ResourceData& res) { return res.path == path; });\<newline>'' @
     lit ''    return (it != all_resources.end()) ? &(*it) : nullptr;\<newline>'' @
     lit ''}\<newline>\<newline>'' @
     lit ''const ResourceData* getAllResources() {\<newline>'' @
     lit ''    return all_resources.data();\<newline>'' @
     lit ''}\<newline>\<newline>'' @
     lit ''size_t getResourceCount() {\<newline>'' @
     lit ''    return all_resources.size();\<newline>'' @
     lit ''}\<newline>\<newline>'' @
     lit ''} // namespace '' @ namespace @ lit ''\<newline>''"

definition source_content :: "python \<Rightarrow> entry \<Rightarrow> resources \<Rightarrow> pystr \<Rightarrow> pystr \<Rightarrow> error + pystr" where
  "source_content P fs resources namespace header_name =
     (case source_definitions P fs (source_prologue namespace header_name) resources of
        Inl err \<Rightarrow> Inl err
      | Inr content \<Rightarrow>
          Inr (foldl (\<lambda>content identifier. content @ source_array_item identifier)
                 (content @ source_array_open (length resources)) (dict_keys resources)
               @ source_epilogue namespace))"

text \<open>
  The index is built as a value, \<^verbatim>\<open>{"resources": [...]}\<close> with one record a resource, and handed
  to \<^verbatim>\<open>json.dump\<close>. The model keeps the value.
\<close>

record index_entry =
  ix_identifier :: pystr
  ix_path :: pystr
  ix_designScale :: pyfloat
  ix_size :: nat
  ix_modified :: real

fun index_data :: "entry \<Rightarrow> index_entry list \<Rightarrow> resources \<Rightarrow> error + index_entry list" where
  "index_data fs entries [] = Inr entries"
| "index_data fs entries ((identifier, file_path, relative_path, design_scale) # rest) =
     (case stat fs file_path of
        Inl err \<Rightarrow> Inl err
      | Inr (st_size, st_mtime) \<Rightarrow>
          index_data fs
            (entries @ [\<lparr> ix_identifier = identifier, ix_path = relative_path,
                          ix_designScale = design_scale, ix_size = st_size,
                          ix_modified = st_mtime \<rparr>]) rest)"

section \<open>The run\<close>

text \<open>
  The state of a run: the file system the assets are read from, and the output directory,
  as the files written to it by name. Whether the output directory can be made and whether a
  file in it can be opened for writing is part of the state. The output directory is taken
  to lie outside the input directory. The messages printed to the console are left out.

  An output file holds a text, or the index, or an index that breaks off: \<open>Json_cut entries\<close>
  is the text of the index up to a point inside the record that follows \<open>entries\<close>.
\<close>

datatype artifact = Text pystr | Json "index_entry list" | Json_cut "index_entry list"

record world =
  tree :: entry
  mkdir_ok :: bool
  writable :: "pystr \<Rightarrow> bool"
  outputs :: "(pystr \<times> artifact) list"

text \<open>
  \<^verbatim>\<open>with open(output_path, 'w', encoding='utf-8') as f: f.write(content)\<close>. Opening makes the
  file or empties it. The text is encoded when it is written: a text with a lone surrogate
  raises \<^verbatim>\<open>UnicodeEncodeError\<close> then, and the file stays empty. A failure of the operating system
  once the file is open (a full disk) is not part of the state.
\<close>

definition write_text :: "world \<Rightarrow> pystr \<Rightarrow> pystr \<Rightarrow> error option \<times> world" where
  "write_text w output_path content =
     (if \<not> writable w output_path then (Some OSError, w)
      else
        case utf8_encode content of
          Inl err \<Rightarrow> (Some err, w\<lparr>outputs := dict_set (outputs w) output_path (Text [])\<rparr>)
        | Inr _ \<Rightarrow> (None, w\<lparr>outputs := dict_set (outputs w) output_path (Text content)\<rparr>))"

text \<open>
  \<^verbatim>\<open>json.dump(index_data, f, indent=2, ensure_ascii=False)\<close> writes the document piece by piece.
  The strings of a record are its identifier and its path, and they are written as they are:
  the first that cannot be encoded raises, and the file keeps what was written before it.
\<close>

definition json_writable :: "index_entry \<Rightarrow> bool" where
  "json_writable e = (\<not> isl (utf8_encode (ix_identifier e)) \<and> \<not> isl (utf8_encode (ix_path e)))"

definition write_json :: "world \<Rightarrow> pystr \<Rightarrow> index_entry list \<Rightarrow> error option \<times> world" where
  "write_json w output_path entries =
     (if \<not> writable w output_path then (Some OSError, w)
      else if list_all json_writable entries then
        (None, w\<lparr>outputs := dict_set (outputs w) output_path (Json entries)\<rparr>)
      else
        (Some UnicodeEncodeError,
         w\<lparr>outputs := dict_set (outputs w) output_path
                          (Json_cut (takeWhile json_writable entries))\<rparr>))"

text \<open>
  An emitter gives the error that ended it, if one did, and the state it left.
\<close>

definition generate_header :: "resources \<Rightarrow> pystr \<Rightarrow> pystr \<Rightarrow> world \<Rightarrow> error option \<times> world" where
  "generate_header resources namespace output_path w =
     write_text w output_path (header_content resources namespace)"

definition generate_source ::
  "python \<Rightarrow> resources \<Rightarrow> pystr \<Rightarrow> pystr \<Rightarrow> pystr \<Rightarrow> world \<Rightarrow> error option \<times> world" where
  "generate_source P resources namespace header_name output_path w =
     (case source_content P (tree w) resources namespace header_name of
        Inl err \<Rightarrow> (Some err, w)
      | Inr content \<Rightarrow> write_text w output_path content)"

definition generate_index :: "resources \<Rightarrow> pystr \<Rightarrow> world \<Rightarrow> error option \<times> world" where
  "generate_index resources output_path w =
     (case index_data (tree w) [] resources of
        Inl err \<Rightarrow> (Some err, w)
      | Inr entries \<Rightarrow> write_json w output_path entries)"

record args =
  input_dir :: path
  output_dir :: path
  namespace :: pystr
  header_file :: pystr
  source_file :: pystr

text \<open>
  \<open>main\<close> gives the error that ended the run, if one did, and the state it left. Nothing
  undoes a write: a file written before the error stays.
\<close>

definition main :: "python \<Rightarrow> args \<Rightarrow> world \<Rightarrow> error option \<times> world" where
  "main P a w =
     (if \<not> mkdir_ok w then (Some OSError, w)
      else
        case collect_resources P (tree w) (input_dir a) of
          Inl err \<Rightarrow> (Some err, w)
        | Inr resources \<Rightarrow>
            (case generate_header resources (namespace a) (header_file a) w of
               (Some err, w1) \<Rightarrow> (Some err, w1)
             | (None, w1) \<Rightarrow>
                 (case generate_source P resources (namespace a) (header_file a) (source_file a) w1 of
                    (Some err, w2) \<Rightarrow> (Some err, w2)
                  | (None, w2) \<Rightarrow> generate_index resources (lit ''resource_index.json'') w2)))"

section \<open>Stating the claims\<close>

text \<open>
  The symbol grammar \<^verbatim>\<open>[A-Za-z_][A-Za-z0-9_]*\<close> of the specification, the lowercase hexadecimal
  digits, and the code points that UTF-8 encodes: all but the surrogates. The identifier of
  the data model starts with a letter and holds only alphanumerics and underscores, as Python
  classifies them.
\<close>

definition ascii_letter :: "pychar \<Rightarrow> bool" where
  "ascii_letter c = ((65 \<le> c \<and> c \<le> 90) \<or> (97 \<le> c \<and> c \<le> 122))"

definition ascii_digit :: "pychar \<Rightarrow> bool" where
  "ascii_digit c = (48 \<le> c \<and> c \<le> 57)"

definition symbol_grammar :: "pystr \<Rightarrow> bool" where
  "symbol_grammar s =
     (case s of
        [] \<Rightarrow> False
      | c # cs \<Rightarrow> (ascii_letter c \<or> c = 95)
                  \<and> list_all (\<lambda>c. ascii_letter c \<or> ascii_digit c \<or> c = 95) cs)"

definition is_hex :: "pychar \<Rightarrow> bool" where
  "is_hex c = ((48 \<le> c \<and> c \<le> 57) \<or> (97 \<le> c \<and> c \<le> 102))"

definition encodable :: "pychar \<Rightarrow> bool" where
  "encodable c = (c < 0xD800 \<or> (0xE000 \<le> c \<and> c < 0x110000))"

definition identifier_shape :: "python \<Rightarrow> pystr \<Rightarrow> bool" where
  "identifier_shape P s =
     (case s of
        [] \<Rightarrow> False
      | c # cs \<Rightarrow> isalpha P c \<and> list_all (\<lambda>c. isalnum P c \<or> c = 95) cs)"

text \<open>
  The density marker of the specification: \<^verbatim>\<open>@\<close>, digits, \<^verbatim>\<open>x\<close>, a dot and an image extension, the
  letters in either case, with \<open>rest\<close> after the extension. \<open>marker_at\<close> is a marker that starts
  at a position of the filename, with anything after it; a trailing marker is one with nothing
  after it.
\<close>

definition marker :: "python \<Rightarrow> pystr \<Rightarrow> pystr \<Rightarrow> pystr \<Rightarrow> bool" where
  "marker P s digits rest =
     (\<exists>x ext. s = [64] @ digits @ [x, 46] @ ext @ rest
        \<and> digits \<noteq> [] \<and> list_all (is_decimal P) digits \<and> ci_char 120 x
        \<and> (\<exists>e \<in> set image_extensions. list_all2 ci_char e ext))"

definition marker_at :: "python \<Rightarrow> pystr \<Rightarrow> nat \<Rightarrow> pystr \<Rightarrow> bool" where
  "marker_at P s i digits = (i \<le> length s \<and> (\<exists>rest. marker P (drop i s) digits rest))"

definition has_trailing_marker :: "python \<Rightarrow> pystr \<Rightarrow> bool" where
  "has_trailing_marker P s = (\<exists>i digits. i \<le> length s \<and> marker P (drop i s) digits [])"

text \<open>
  The files the collector takes: the regular files whose own name does not start with a dot.
  \<open>walked\<close> is what the walk yields, nothing when the input directory does not exist. The walk
  from a directory reaches a path below it when every directory on the way may be listed
  and none after the first is a link; the names on the way play no part.
  \<open>entry_ok\<close> is how the loop body makes an entry, given the entries made before it.
\<close>

fun reached :: "entry \<Rightarrow> path \<Rightarrow> bool" where
  "reached e [] = True"
| "reached (Dir listable link kids st) (n # p) =
     (listable \<and>
      (case map_of kids n of
         None \<Rightarrow> False
       | Some e \<Rightarrow> (p = [] \<or> descends e) \<and> reached e p))"
| "reached _ (n # p) = False"

definition eligible :: "path \<times> entry \<Rightarrow> bool" where
  "eligible f = (is_file (snd f) \<and> \<not> startswith (basename (fst f)) (lit ''.''))"

definition walked :: "entry \<Rightarrow> path \<Rightarrow> (path \<times> entry) list" where
  "walked fs dir = (case lookup fs dir of None \<Rightarrow> [] | Some e \<Rightarrow> rglob dir e)"

definition entry_ok :: "python \<Rightarrow> path \<Rightarrow> resources \<Rightarrow> pystr \<times> resource \<Rightarrow> bool" where
  "entry_ok P dir earlier r =
     (case r of (ident, file_path, normalized_path, design_scale) \<Rightarrow>
        \<exists>rel base. relative_to file_path dir = Inr rel
          \<and> normalized_path = as_posix rel
          \<and> design_scale = parse_design_scale P (basename file_path)
          \<and> sanitize_identifier P normalized_path = Inr base
          \<and> ident = resolve_collision earlier base base 1)"

text \<open>
  The definition the source emitter writes for a resource whose file holds \<open>data\<close>, and
  reading it back: the array literal is its second line and the size its seventh, each after
  four spaces; the literal is a list of \<^verbatim>\<open>0x\<close> and two hexadecimal digits a byte, between
  commas.
\<close>

definition definition_of :: "python \<Rightarrow> pystr \<times> resource \<Rightarrow> byte list \<Rightarrow> pystr" where
  "definition_of P r data =
     (case r of (ident, file_path, relative_path, design_scale) \<Rightarrow>
        resource_definition P ident data relative_path design_scale)"

definition array_literal :: "pystr \<Rightarrow> pystr" where
  "array_literal t = drop 4 (split_on 10 t ! 1)"

definition size_field :: "pystr \<Rightarrow> pystr" where
  "size_field t = butlast (drop 4 (split_on 10 t ! 6))"

definition hex_value :: "pychar \<Rightarrow> nat option" where
  "hex_value c =
     (if 48 \<le> c \<and> c \<le> 57 then Some (c - 48)
      else if 97 \<le> c \<and> c \<le> 102 then Some (c - 87)
      else None)"

definition decode_byte :: "pystr \<Rightarrow> byte option" where
  "decode_byte t =
     (case dropWhile (\<lambda>c. c = 32) t of
        [z, x, h, l] \<Rightarrow>
          if z = 48 \<and> x = 120 then
            (case (hex_value h, hex_value l) of
               (Some a, Some b) \<Rightarrow> Some (of_nat (16 * a + b))
             | _ \<Rightarrow> None)
          else None
      | _ \<Rightarrow> None)"

definition decode_hex_data :: "pystr \<Rightarrow> byte list option" where
  "decode_hex_data s = (if s = [] then Some [] else those (map decode_byte (split_on 44 s)))"






text \<open>
  Examples. The input directory \<^verbatim>\<open>res\<close> with a nested asset, a hidden directory that holds a
  visible and a hidden file, a file at the top and a socket; the mapping the collector makes
  of it; the arguments of a run with the defaults of the command line, and a state in which
  every write succeeds.
\<close>

definition example_tree :: entry where
  "example_tree =
     Dir True False
       [(lit ''res'',
         Dir True False
           [(lit ''assets'',
             Dir True False
               [(lit ''icons'',
                 Dir True False [(lit ''a@2x.png'', File True [1, 2, 255] 5)] (0, 0))] (0, 0)),
            (lit ''.cache'',
             Dir True False
               [(lit ''logo.png'', File True [7] 5), (lit ''.keep'', File True [] 5)] (0, 0)),
            (lit ''plain.png'', File True [] 6),
            (lit ''socket'', Special (0, 0))] (0, 0))] (0, 0)"

definition example_resources :: resources where
  "example_resources =
     [(lit ''plain_33c11a06'', [lit ''res'', lit ''plain.png''], lit ''plain.png'', Float 1),
      (lit ''a_2x_eadcf878'', [lit ''res'', lit ''assets'', lit ''icons'', lit ''a@2x.png''],
       lit ''assets/icons/a@2x.png'', Float 2),
      (lit ''logo_389e3531'', [lit ''res'', lit ''.cache'', lit ''logo.png''],
       lit ''.cache/logo.png'', Float 1)]"

definition example_args :: args where
  "example_args =
     \<lparr> input_dir = [lit ''res''], output_dir = [lit ''out''], namespace = lit ''Resources'',
       header_file = lit ''embedded_resources.h'', source_file = lit ''embedded_resources.cpp'' \<rparr>"

definition example_world :: world where
  "example_world =
     \<lparr> tree = example_tree, mkdir_ok = True, writable = (\<lambda>_. True), outputs = [] \<rparr>"

text \<open>
  Two directories of \<^verbatim>\<open>res\<close> that each hold an \<^verbatim>\<open>icon.png\<close>. The MD5 digests of
  \<^verbatim>\<open>d70884/icon.png\<close> and \<^verbatim>\<open>d91691/icon.png\<close> both start with \<^verbatim>\<open>f1c3ea9c\<close>, so the two files have the
  same base identifier. And a state whose only asset cannot be read.
\<close>

definition collision_tree :: entry where
  "collision_tree =
     Dir True False
       [(lit ''res'',
         Dir True False
           [(lit ''d70884'', Dir True False [(lit ''icon.png'', File True [1] 5)] (0, 0)),
            (lit ''d91691'', Dir True False [(lit ''icon.png'', File True [2] 5)] (0, 0))]
           (0, 0))] (0, 0)"

definition unreadable_world :: world where
  "unreadable_world =
     \<lparr> tree = Dir True False
                [(lit ''res'', Dir True False [(lit ''plain.png'', File False [1] 6)] (0, 0))]
                (0, 0),
       mkdir_ok = True, writable = (\<lambda>_. True), outputs = [] \<rparr>"

text \<open>
  An input directory with a directory that may not be listed, a link to a directory and a
  file at the top: the walk yields the two directories and the file, and nothing that is in
  the directories.
\<close>

definition locked_tree :: entry where
  "locked_tree =
     Dir True False
       [(lit ''res'',
         Dir True False
           [(lit ''locked'', Dir False False [(lit ''x.png'', File True [1] 5)] (0, 0)),
            (lit ''linkdir'', Dir True True [(lit ''z.png'', File True [2] 5)] (0, 0)),
            (lit ''plain.png'', File True [] 6)] (0, 0))] (0, 0)"

section \<open>Lemmas\<close>

subsection \<open>Names, stems and encodings\<close>

lemma lit_simps:
  "lit ''.'' = [46]" "lit ''_'' = [95]" "lit ''/'' = [47]" "lit ''res_'' = [114, 101, 115, 95]"
  by (simp_all add: lit_def)

lemma name_stem_empty: "name_stem n = [] \<longleftrightarrow> n = []"
  by (auto simp: name_stem_def split: option.splits)

lemma split_on_nonempty: "split_on c s \<noteq> []"
  by (induction s) (auto split: list.splits)

lemma split_on_member:
  "x \<in> set s \<Longrightarrow> x \<noteq> c \<Longrightarrow> \<exists>p \<in> set (split_on c s). x \<in> set p"
proof (induction s)
  case Nil then show ?case by simp
next
  case (Cons a s)
  obtain p ps where sp: "split_on c s = p # ps"
    using split_on_nonempty [of c s] by (cases "split_on c s") auto
  show ?case
  proof (cases "a = c")
    case True
    with Cons show ?thesis by auto
  next
    case False
    show ?thesis
    proof (cases "x = a")
      case True
      with False sp show ?thesis by simp
    next
      case neq: False
      with Cons obtain q where "q \<in> set (split_on c s)" "x \<in> set q" by auto
      with False sp show ?thesis by auto
    qed
  qed
qed

lemma split_on_none: "c \<notin> set s \<Longrightarrow> split_on c s = [s]"
  by (induction s) auto

lemma split_on_append: "split_on c (a @ c # b) = split_on c a @ split_on c b"
proof (induction a)
  case Nil then show ?case by simp
next
  case (Cons x a)
  obtain p ps where "split_on c a = p # ps"
    using split_on_nonempty [of c a] by (cases "split_on c a") auto
  with Cons show ?case by simp
qed

lemma split_on_prefix:
  "c \<notin> set a \<Longrightarrow> split_on c (a @ s) = (a @ hd (split_on c s)) # tl (split_on c s)"
proof (induction a)
  case Nil
  with split_on_nonempty [of c s] show ?case by simp
next
  case (Cons x a)
  then show ?case by auto
qed

lemma split_on_line: "c \<notin> set l \<Longrightarrow> split_on c (l @ c # rest) = l # split_on c rest"
  by (simp add: split_on_append split_on_none)

lemma split_on_empty_line: "split_on c (c # rest) = [] # split_on c rest"
  by simp

lemma join_Cons: "ys \<noteq> [] \<Longrightarrow> join sep (x # ys) = x @ sep @ join sep ys"
  by (cases ys) auto

lemma split_on_join_last:
  "c \<notin> set l \<Longrightarrow> \<exists>zs. split_on c (join [c] (cs @ [l])) = zs @ [l]"
proof (induction cs)
  case Nil
  then show ?case by (simp add: split_on_none)
next
  case (Cons x cs)
  then obtain zs where "split_on c (join [c] (cs @ [l])) = zs @ [l]" by blast
  then have "split_on c (join [c] ((x # cs) @ [l])) = (split_on c x @ zs) @ [l]"
    by (simp add: join_Cons split_on_append)
  then show ?case by blast
qed

lemma split_on_join:
  assumes "\<forall>t \<in> set toks. c \<notin> set t" and "c \<notin> set sep" and "toks \<noteq> []"
  shows "split_on c (join (c # sep) toks) = hd toks # map ((@) sep) (tl toks)"
  using assms
proof (induction toks)
  case Nil
  then show ?case by simp
next
  case (Cons x toks)
  show ?case
  proof (cases toks)
    case Nil
    with Cons.prems show ?thesis by (simp add: split_on_none)
  next
    case (Cons y ys)
    with Cons.IH Cons.prems
    have IH: "split_on c (join (c # sep) (y # ys)) = y # map ((@) sep) ys"
      by simp
    from Cons.prems have "split_on c (join (c # sep) (x # y # ys))
        = split_on c x @ split_on c (sep @ join (c # sep) (y # ys))"
      by (simp add: split_on_append)
    also from Cons.prems IH have "\<dots> = [x] @ (sep @ y) # map ((@) sep) ys"
      by (simp add: split_on_none split_on_prefix)
    finally show ?thesis using Cons by simp
  qed
qed

lemma path_name_eq:
  "path_name s =
     (let cs = filter (\<lambda>c. c \<noteq> [] \<and> c \<noteq> lit ''.'') (split_on 47 s)
      in if cs = [] then [] else last cs)"
  by (simp add: path_name_def Let_def split: list.splits)

lemma path_name_empty:
  assumes "path_name s = []"
  shows "filter (\<lambda>c. c \<noteq> [] \<and> c \<noteq> lit ''.'') (split_on 47 s) = []"
proof (rule ccontr)
  let ?cs = "filter (\<lambda>c. c \<noteq> [] \<and> c \<noteq> lit ''.'') (split_on 47 s)"
  assume ne: "?cs \<noteq> []"
  then have "last ?cs \<in> set ?cs" by (rule last_in_set)
  then have "last ?cs \<noteq> []" by simp
  moreover from ne have "path_name s = last ?cs"
    by (simp add: path_name_eq Let_def)
  ultimately show False using assms by simp
qed

lemma path_name_empty_chars:
  assumes "path_name s = []" and "x \<in> set s"
  shows "x = 46 \<or> x = 47"
proof (cases "x = 47")
  case True then show ?thesis by simp
next
  case False
  from split_on_member [OF assms(2) False]
  obtain p where p: "p \<in> set (split_on 47 s)" "x \<in> set p" ..
  from path_name_empty [OF assms(1)]
  have "\<forall>q \<in> set (split_on 47 s). q = [] \<or> q = lit ''.''"
    unfolding filter_empty_conv by simp
  from this p(1) have "p = [] \<or> p = [46]"
    unfolding lit_simps by (rule bspec)
  with p(2) show ?thesis by (elim disjE) simp_all
qed

lemma path_name_as_posix:
  assumes "rel \<noteq> []" and "last rel \<noteq> []" and "47 \<notin> set (last rel)" and "last rel \<noteq> lit ''.''"
  shows "path_name (as_posix rel) = last rel"
proof -
  from assms(1) have rel: "rel = butlast rel @ [last rel]" by simp
  from assms(1) have "as_posix rel = join [47] rel"
    by (cases rel) (simp_all add: as_posix_def lit_simps)
  also have "\<dots> = join [47] (butlast rel @ [last rel])" using rel by simp
  finally obtain zs where "split_on 47 (as_posix rel) = zs @ [last rel]"
    using split_on_join_last [OF assms(3), of "butlast rel"] by auto
  with assms(2,4) show ?thesis by (simp add: path_name_eq Let_def)
qed

lemma not_hidden_not_dot: "\<not> startswith l (lit ''.'') \<Longrightarrow> l \<noteq> lit ''.''"
  by (auto simp: startswith_def lit_simps)

lemma utf8_char_encodable: "encodable c \<Longrightarrow> \<exists>bs. utf8_char c = Inr bs"
  unfolding utf8_char_def encodable_def by (simp split: if_splits) arith

lemma utf8_char_not_encodable: "\<not> encodable c \<Longrightarrow> utf8_char c = Inl UnicodeEncodeError"
  unfolding utf8_char_def encodable_def by (simp split: if_splits) arith

lemma utf8_encode_cases:
  "utf8_encode s = Inl UnicodeEncodeError \<or> (\<exists>bs. utf8_encode s = Inr bs)"
proof (induction s)
  case Nil then show ?case by simp
next
  case (Cons c s)
  show ?case
  proof (cases "encodable c")
    case True
    then obtain bs where "utf8_char c = Inr bs" using utf8_char_encodable by blast
    with Cons show ?thesis by (auto split: sum.splits)
  next
    case False
    then show ?thesis by (simp add: utf8_char_not_encodable)
  qed
qed

lemma utf8_encode_succeeds_iff:
  "(\<exists>bs. utf8_encode s = Inr bs) \<longleftrightarrow> (\<forall>c \<in> set s. encodable c)"
proof (induction s)
  case Nil then show ?case by simp
next
  case (Cons c s)
  show ?case
  proof (cases "encodable c")
    case True
    then obtain bs where "utf8_char c = Inr bs" using utf8_char_encodable by blast
    with Cons True show ?thesis by (auto split: sum.splits)
  next
    case False
    then show ?thesis by (auto simp: utf8_char_not_encodable)
  qed
qed

lemma utf8_encode_fails_iff:
  "utf8_encode s = Inl UnicodeEncodeError \<longleftrightarrow> (\<exists>c \<in> set s. \<not> encodable c)"
  using utf8_encode_cases [of s] utf8_encode_succeeds_iff [of s] by auto

subsection \<open>Digests\<close>

text \<open>The digest of \<^verbatim>\<open>abc\<close>, from the test suite of RFC 1321.\<close>

lemma md5_abc: "hexdigest (md5 [97, 98, 99]) = lit ''900150983cd24fb0d6963f7d28e17f72''"
  by code_simp

lemma length_md5: "length (md5 bs) = 16"
  by (simp add: md5_def bytes_le32_def split: prod.splits)

lemma is_hex_hex_digit: "d < 16 \<Longrightarrow> is_hex (hex_digit d)"
  unfolding is_hex_def hex_digit_def by (simp split: if_splits)

lemma list_all_hex2: "list_all is_hex (hex2 b)"
proof -
  have "unat b < 256" using unsigned_less [of b] by simp
  then have "unat b div 16 < 16" by simp
  then show ?thesis by (simp add: hex2_def is_hex_hex_digit)
qed

lemma hexdigest_hex: "list_all is_hex (hexdigest d)"
  by (induction d) (simp_all add: hexdigest_def list_all_hex2)

lemma length_hexdigest: "length (hexdigest d) = 2 * length d"
  by (induction d) (simp_all add: hexdigest_def hex2_def)

lemma hash_suffix_shape:
  "length (take 8 (hexdigest (md5 bs))) = 8 \<and> list_all is_hex (take 8 (hexdigest (md5 bs)))"
proof -
  have "list_all is_hex (take 8 (hexdigest (md5 bs)))"
    using hexdigest_hex [of "md5 bs"] by (auto simp: list_all_iff dest: in_set_takeD)
  then show ?thesis by (simp add: length_hexdigest length_md5)
qed

subsection \<open>The sanitizer\<close>

lemma sanitize_identifier_unencodable:
  "utf8_encode name = Inl UnicodeEncodeError \<Longrightarrow> sanitize_identifier P name = Inl UnicodeEncodeError"
  by (simp add: sanitize_identifier_def)

lemma sanitize_identifier_empty_stem:
  assumes "name_stem (path_name name) = []"
  shows "sanitize_identifier P name = Inl IndexError"
proof -
  from assms have "path_name name = []" by (simp add: name_stem_empty)
  then have "\<forall>c \<in> set name. c = 46 \<or> c = 47" using path_name_empty_chars by blast
  then have "\<forall>c \<in> set name. encodable c" by (auto simp: encodable_def)
  then have "utf8_encode name \<noteq> Inl UnicodeEncodeError"
    by (simp add: utf8_encode_fails_iff)
  then obtain bs where "utf8_encode name = Inr bs"
    using utf8_encode_cases [of name] by auto
  with assms show ?thesis by (simp add: sanitize_identifier_def)
qed

lemma sanitize_identifier_value:
  assumes "utf8_encode name = Inr bs" and "name_stem (path_name name) = c # cs"
  shows "sanitize_identifier P name =
         Inr ((if isalpha P (if isalnum P c \<or> c = 95 then c else 95) then [] else lit ''res_'')
              @ map (\<lambda>c. if isalnum P c \<or> c = 95 then c else 95) (c # cs)
              @ lit ''_'' @ take 8 (hexdigest (md5 bs)))"
  using assms by (simp add: sanitize_identifier_def Let_def)

lemma sanitize_identifier_IndexError_iff:
  "(sanitize_identifier P name = Inl IndexError) = (name_stem (path_name name) = [])"
proof
  assume "name_stem (path_name name) = []"
  then show "sanitize_identifier P name = Inl IndexError"
    by (rule sanitize_identifier_empty_stem)
next
  assume err: "sanitize_identifier P name = Inl IndexError"
  show "name_stem (path_name name) = []"
  proof (rule ccontr)
    assume "name_stem (path_name name) \<noteq> []"
    then obtain c cs where stem: "name_stem (path_name name) = c # cs"
      by (cases "name_stem (path_name name)") auto
    from utf8_encode_cases [of name] show False
    proof
      assume "utf8_encode name = Inl UnicodeEncodeError"
      with err show False by (simp add: sanitize_identifier_unencodable)
    next
      assume "\<exists>bs. utf8_encode name = Inr bs"
      then obtain bs where "utf8_encode name = Inr bs" ..
      from sanitize_identifier_value [OF this stem, of P] err show False by simp
    qed
  qed
qed

lemma sanitize_identifier_UnicodeEncodeError_iff:
  "(sanitize_identifier P name = Inl UnicodeEncodeError) = (\<not> list_all encodable name)"
proof
  assume "\<not> list_all encodable name"
  then have "utf8_encode name = Inl UnicodeEncodeError"
    by (simp add: utf8_encode_fails_iff list_all_iff)
  then show "sanitize_identifier P name = Inl UnicodeEncodeError"
    by (rule sanitize_identifier_unencodable)
next
  assume err: "sanitize_identifier P name = Inl UnicodeEncodeError"
  show "\<not> list_all encodable name"
  proof
    assume "list_all encodable name"
    then obtain bs where bs: "utf8_encode name = Inr bs"
      using utf8_encode_succeeds_iff [of name] by (auto simp: list_all_iff)
    show False
    proof (cases "name_stem (path_name name)")
      case Nil
      with err sanitize_identifier_IndexError_iff [of P name] show False by simp
    next
      case (Cons c cs)
      from sanitize_identifier_value [OF bs Cons, of P] err show False by simp
    qed
  qed
qed

lemma sanitize_identifier_returns_iff:
  "(\<exists>ident. sanitize_identifier P name = Inr ident)
     = (name_stem (path_name name) \<noteq> [] \<and> list_all encodable name)"
proof
  assume "\<exists>ident. sanitize_identifier P name = Inr ident"
  with sanitize_identifier_IndexError_iff [of P name]
    sanitize_identifier_UnicodeEncodeError_iff [of P name]
  show "name_stem (path_name name) \<noteq> [] \<and> list_all encodable name" by auto
next
  assume h: "name_stem (path_name name) \<noteq> [] \<and> list_all encodable name"
  then obtain bs where bs: "utf8_encode name = Inr bs"
    using utf8_encode_succeeds_iff [of name] by (auto simp: list_all_iff)
  from h obtain c cs where stem: "name_stem (path_name name) = c # cs"
    by (cases "name_stem (path_name name)") auto
  from sanitize_identifier_value [OF bs stem, of P]
  show "\<exists>ident. sanitize_identifier P name = Inr ident" by blast
qed

lemma sanitize_identifier_of_file:
  assumes "rel \<noteq> []" "last rel \<noteq> []" "47 \<notin> set (last rel)" "\<not> startswith (last rel) (lit ''.'')"
  shows "sanitize_identifier P (as_posix rel) \<noteq> Inl IndexError"
proof -
  from assms have "path_name (as_posix rel) = last rel"
    by (simp add: path_name_as_posix not_hidden_not_dot)
  with assms(2) have "name_stem (path_name (as_posix rel)) \<noteq> []"
    by (simp add: name_stem_empty)
  then show ?thesis by (simp add: sanitize_identifier_IndexError_iff)
qed

lemma is_hex_isalnum: "is_hex c \<Longrightarrow> isalnum P c"
  by (auto simp: is_hex_def isalnum_def)

lemma is_hex_grammar: "is_hex c \<Longrightarrow> ascii_letter c \<or> ascii_digit c \<or> c = 95"
  by (auto simp: is_hex_def ascii_letter_def ascii_digit_def)

lemma isalnum_ascii: "c < 128 \<Longrightarrow> isalnum P c \<Longrightarrow> ascii_letter c \<or> ascii_digit c"
  by (auto simp: isalnum_def ascii_letter_def ascii_digit_def)

lemma isalpha_ascii: "c < 128 \<Longrightarrow> isalpha P c \<Longrightarrow> ascii_letter c"
  by (auto simp: isalpha_def ascii_letter_def)

lemma res_prefix:
  "isalpha P 114" "list_all (\<lambda>c. isalnum P c \<or> c = 95) [101, 115, 95]"
  "ascii_letter 114" "list_all (\<lambda>c. ascii_letter c \<or> ascii_digit c \<or> c = 95) [101, 115, 95]"
  by (simp_all add: isalpha_def isalnum_def ascii_letter_def)

lemma sanitize_identifier_no_newline:
  assumes "sanitize_identifier P name = Inr ident"
  shows "10 \<notin> set ident"
proof -
  define f where "f = (\<lambda>c. if isalnum P c \<or> c = 95 then c else 95)"
  from assms sanitize_identifier_returns_iff [of P name]
  have "name_stem (path_name name) \<noteq> []" and "list_all encodable name" by blast+
  then obtain bs c cs where bs: "utf8_encode name = Inr bs"
      and stem: "name_stem (path_name name) = c # cs"
    using utf8_encode_succeeds_iff [of name]
    by (cases "name_stem (path_name name)") (auto simp: list_all_iff)
  have kept: "f x \<noteq> 10" for x by (simp add: f_def isalnum_def)
  have digest: "10 \<notin> set (take 8 (hexdigest (md5 bs)))"
    using hash_suffix_shape [of bs] by (auto simp: list_all_iff is_hex_def)
  from sanitize_identifier_value [OF bs stem, of P] assms
  have "ident = (if isalpha P (f c) then [] else lit ''res_'')
      @ map f (c # cs) @ lit ''_'' @ take 8 (hexdigest (md5 bs))"
    by (simp add: f_def)
  moreover have "10 \<notin> set (map f (c # cs))"
  proof
    assume "10 \<in> set (map f (c # cs))"
    then obtain x where "f x = 10" by (metis (no_types, lifting) imageE list.set_map)
    with kept show False by blast
  qed
  ultimately show ?thesis using digest by (simp add: lit_simps)
qed

subsection \<open>The scale parser\<close>

lemma not_decimal_x: "ci_char 120 x \<Longrightarrow> \<not> is_decimal P x"
  by (auto simp: ci_char_def is_decimal_def decimal_value_def)

lemma ci_startswith_iff:
  "ci_startswith s e \<longleftrightarrow> (\<exists>ext rest. s = ext @ rest \<and> list_all2 ci_char e ext)"
proof
  assume "ci_startswith s e"
  then have "s = take (length e) s @ drop (length e) s \<and> list_all2 ci_char e (take (length e) s)"
    by (simp add: ci_startswith_def)
  then show "\<exists>ext rest. s = ext @ rest \<and> list_all2 ci_char e ext" by blast
next
  assume "\<exists>ext rest. s = ext @ rest \<and> list_all2 ci_char e ext"
  then obtain ext rest where s: "s = ext @ rest" and e: "list_all2 ci_char e ext" by blast
  from e have "length e = length ext" by (rule list_all2_lengthD)
  with s e show "ci_startswith s e" by (simp add: ci_startswith_def)
qed

lemma match_at_iff: "match_at P s = Some digits \<longleftrightarrow> (\<exists>rest. marker P s digits rest)"
proof
  assume m: "match_at P s = Some digits"
  then obtain r where s: "s = 64 # r"
    by (cases s) (auto simp: match_at_def split: if_splits)
  let ?ds = "takeWhile (is_decimal P) r" and ?rest = "dropWhile (is_decimal P) r"
  from m s have ds: "?ds \<noteq> []" "digits = ?ds"
    by (auto simp: match_at_def Let_def split: if_splits list.splits)
  from m s ds obtain x e where rest: "?rest = x # 46 # e" and x: "ci_char 120 x"
      and ex: "list_ex (ci_startswith e) image_extensions"
    by (auto simp: match_at_def Let_def split: if_splits list.splits)
  from ex obtain ext where "ext \<in> set image_extensions" "ci_startswith e ext"
    by (auto simp: list_ex_iff)
  then obtain ext' rest' where e: "e = ext' @ rest'" and ci: "list_all2 ci_char ext ext'"
      and mem: "ext \<in> set image_extensions"
    by (auto simp: ci_startswith_iff)
  have "r = ?ds @ ?rest" by simp
  with s rest e ds have "s = [64] @ digits @ [x, 46] @ ext' @ rest'" by simp
  moreover have "list_all (is_decimal P) digits"
    unfolding ds(2) list_all_iff by (auto dest: set_takeWhileD)
  ultimately have "marker P s digits rest'"
    using ds x ci mem unfolding marker_def by blast
  then show "\<exists>rest. marker P s digits rest" ..
next
  assume "\<exists>rest. marker P s digits rest"
  then obtain rest x ext e where s: "s = [64] @ digits @ [x, 46] @ ext @ rest"
      and d: "digits \<noteq> []" "list_all (is_decimal P) digits" and x: "ci_char 120 x"
      and e: "e \<in> set image_extensions" "list_all2 ci_char e ext"
    unfolding marker_def by blast
  from d(2) x have tw: "takeWhile (is_decimal P) (digits @ [x, 46] @ ext @ rest) = digits"
    "dropWhile (is_decimal P) (digits @ [x, 46] @ ext @ rest) = [x, 46] @ ext @ rest"
    by (simp_all add: list_all_iff not_decimal_x takeWhile_append2 dropWhile_append2)
  from e have "list_ex (ci_startswith (ext @ rest)) image_extensions"
    unfolding list_ex_iff ci_startswith_iff by blast
  with s d x tw show "match_at P s = Some digits"
    by (simp add: match_at_def Let_def)
qed

lemma match_at_Nil: "match_at P [] = None"
  by (simp add: match_at_def)

text \<open>
  The search gives the digits of the leftmost position that matches.
\<close>

lemma re_search_Some_iff:
  "re_search P s = Some digits \<longleftrightarrow>
     (\<exists>i. marker_at P s i digits \<and> (\<forall>j < i. \<forall>ds. \<not> marker_at P s j ds))"
proof (induction s)
  case Nil
  then show ?case by (simp add: match_at_Nil marker_at_def flip: match_at_iff)
next
  case (Cons c s)
  show ?case
  proof (cases "match_at P (c # s)")
    case (Some g)
    then have here: "marker_at P (c # s) 0 g" by (simp add: marker_at_def flip: match_at_iff)
    show ?thesis
    proof
      assume "re_search P (c # s) = Some digits"
      with Some have "g = digits" by simp
      with here have "marker_at P (c # s) 0 digits \<and> (\<forall>j < 0. \<forall>ds. \<not> marker_at P (c # s) j ds)"
        by simp
      then show "\<exists>i. marker_at P (c # s) i digits \<and> (\<forall>j < i. \<forall>ds. \<not> marker_at P (c # s) j ds)" ..
    next
      assume "\<exists>i. marker_at P (c # s) i digits \<and> (\<forall>j < i. \<forall>ds. \<not> marker_at P (c # s) j ds)"
      then obtain i where i: "marker_at P (c # s) i digits" "\<forall>j < i. \<forall>ds. \<not> marker_at P (c # s) j ds"
        by blast
      from i(2) here have "i = 0" by (cases i) auto
      with i(1) have "match_at P (c # s) = Some digits"
        by (simp add: marker_at_def match_at_iff)
      with Some show "re_search P (c # s) = Some digits" by simp
    qed
  next
    case None
    then have nohere: "\<not> marker_at P (c # s) 0 ds" for ds
      by (simp add: marker_at_def flip: match_at_iff)
    have shift: "marker_at P (c # s) (Suc j) ds = marker_at P s j ds" for j ds
      by (simp add: marker_at_def)
    show ?thesis
    proof
      assume "re_search P (c # s) = Some digits"
      with None Cons obtain i where i: "marker_at P s i digits" "\<forall>j < i. \<forall>ds. \<not> marker_at P s j ds"
        by auto
      have "\<not> marker_at P (c # s) j ds" if "j < Suc i" for j ds
        using that i(2) nohere shift by (cases j) auto
      with i(1) shift have "marker_at P (c # s) (Suc i) digits
          \<and> (\<forall>j < Suc i. \<forall>ds. \<not> marker_at P (c # s) j ds)" by blast
      then show "\<exists>i. marker_at P (c # s) i digits \<and> (\<forall>j < i. \<forall>ds. \<not> marker_at P (c # s) j ds)" ..
    next
      assume "\<exists>i. marker_at P (c # s) i digits \<and> (\<forall>j < i. \<forall>ds. \<not> marker_at P (c # s) j ds)"
      then obtain i where i: "marker_at P (c # s) i digits" "\<forall>j < i. \<forall>ds. \<not> marker_at P (c # s) j ds"
        by blast
      from i(1) nohere obtain k where k: "i = Suc k" by (cases i) auto
      with i shift have "marker_at P s k digits" by simp
      moreover have "\<forall>j < k. \<forall>ds. \<not> marker_at P s j ds"
      proof (intro allI impI)
        fix j ds assume "j < k"
        then have "Suc j < i" using k by simp
        with i(2) have "\<not> marker_at P (c # s) (Suc j) ds" by blast
        then show "\<not> marker_at P s j ds" by (simp add: shift)
      qed
      ultimately have "re_search P s = Some digits" using Cons by blast
      with None show "re_search P (c # s) = Some digits" by simp
    qed
  qed
qed

lemma re_search_None_iff:
  "re_search P s = None \<longleftrightarrow> (\<forall>i ds. \<not> marker_at P s i ds)"
proof
  assume none: "re_search P s = None"
  show "\<forall>i ds. \<not> marker_at P s i ds"
  proof (intro allI notI)
    fix i ds assume "marker_at P s i ds"
    then have ex: "\<exists>i. \<exists>ds. marker_at P s i ds" by blast
    define k where "k = (LEAST i. \<exists>ds. marker_at P s i ds)"
    from ex have "\<exists>ds. marker_at P s k ds" unfolding k_def by (rule LeastI_ex)
    then obtain ds' where "marker_at P s k ds'" ..
    moreover have "\<forall>j < k. \<forall>ds. \<not> marker_at P s j ds"
      unfolding k_def using not_less_Least by blast
    ultimately have "re_search P s = Some ds'"
      unfolding re_search_Some_iff by blast
    with none show False by simp
  qed
next
  assume "\<forall>i ds. \<not> marker_at P s i ds"
  then have "re_search P s \<noteq> Some ds" for ds
    unfolding re_search_Some_iff by blast
  then show "re_search P s = None" by (cases "re_search P s") auto
qed

lemma marker_at_match: "marker_at P s i digits \<longleftrightarrow> i \<le> length s \<and> match_at P (drop i s) = Some digits"
  by (simp add: marker_at_def match_at_iff)

lemma str_nat_digits: "c \<in> set (str_nat n) \<Longrightarrow> 48 \<le> c \<and> c \<le> 57"
proof (induction n rule: str_nat.induct)
  case (1 n)
  show ?case
  proof (cases "n < 10")
    case True
    with 1(2) show ?thesis by (simp add: str_nat.simps [of n])
  next
    case False
    with 1 show ?thesis by (auto simp: str_nat.simps [of n])
  qed
qed

lemma int_of_digits_ascii:
  assumes "\<forall>c \<in> set ds. 48 \<le> c \<and> c \<le> 57"
  shows "foldl (\<lambda>a c. 10 * a + (case decimal_value P c of Some v \<Rightarrow> v | None \<Rightarrow> 0)) a ds
       = foldl (\<lambda>a c. 10 * a + (c - 48)) a ds"
  using assms by (induction ds arbitrary: a) (simp_all add: decimal_value_def)

lemma int_of_digits_str_nat: "int_of_digits P (str_nat n) = n"
  unfolding int_of_digits_def
  using int_of_digits_ascii [of "str_nat n" P 0] str_nat_digits [of _ n] str_nat_value [of n]
  by simp

lemma str_nat_no_newline: "10 \<notin> set (str_nat n)"
  using str_nat_digits [of 10 n] by auto

lemma trailing_ends_with_extension:
  assumes "has_trailing_marker P s"
  shows "list_ex (\<lambda>e. list_all2 ci_char e (drop (length s - length e) s)) image_extensions"
proof -
  from assms obtain i digits x ext e where i: "i \<le> length s"
      and d: "drop i s = [64] @ digits @ [x, 46] @ ext"
      and e: "e \<in> set image_extensions" "list_all2 ci_char e ext"
    unfolding has_trailing_marker_def marker_def by auto
  have "s = take i s @ drop i s" by simp
  with d have s: "s = (take i s @ [64] @ digits @ [x, 46]) @ ext" by simp
  then obtain a where a: "s = a @ ext" ..
  have "drop (length s - length ext) s = ext"
    unfolding a by simp
  moreover from e(2) have "length e = length ext" by (rule list_all2_lengthD)
  ultimately have "list_all2 ci_char e (drop (length s - length e) s)" using e(2) by simp
  with e(1) show ?thesis unfolding list_ex_iff by blast
qed

text \<open>
  The length in bits of a number bounds it, and \<^verbatim>\<open>float\<close> keeps a number up to \<open>2\<^sup>5\<^sup>3\<close>.
\<close>

lemma bit_length_0: "bit_length 0 = 0"
  by (simp add: bit_length.simps)

lemma bit_length_pos: "n \<noteq> 0 \<Longrightarrow> 0 < bit_length n"
  by (simp add: bit_length.simps [of n])

lemma bit_length_le_iff: "bit_length n \<le> k \<longleftrightarrow> n < 2 ^ k"
proof (induction k arbitrary: n)
  case 0
  show ?case using bit_length_pos [of n] by (cases "n = 0") (simp_all add: bit_length_0)
next
  case (Suc k)
  show ?case
  proof (cases "n = 0")
    case True
    then show ?thesis by (simp add: bit_length_0)
  next
    case False
    then have "bit_length n \<le> Suc k \<longleftrightarrow> bit_length (n div 2) \<le> k"
      by (simp add: bit_length.simps [of n])
    also have "\<dots> \<longleftrightarrow> n div 2 < 2 ^ k" by (rule Suc.IH)
    also have "\<dots> \<longleftrightarrow> n < 2 ^ Suc k" by auto
    finally show ?thesis .
  qed
qed

lemma bit_length_bounds:
  assumes "n \<noteq> 0"
  shows "2 ^ (bit_length n - 1) \<le> n" and "n < 2 ^ bit_length n"
proof -
  from assms have pos: "0 < bit_length n" by (rule bit_length_pos)
  then have "\<not> bit_length n \<le> bit_length n - 1" by simp
  then show "2 ^ (bit_length n - 1) \<le> n" by (simp add: bit_length_le_iff)
  show "n < 2 ^ bit_length n" using bit_length_le_iff [of n "bit_length n"] by simp
qed

lemma float_of_nat_exact:
  assumes "n \<le> 2 ^ 53"
  shows "float_of_nat n = Float (real n)"
proof (cases "n < 2 ^ 53")
  case True
  then have "bit_length n \<le> 53" by (simp add: bit_length_le_iff)
  then show ?thesis by (simp add: float_of_nat_def)
next
  case False
  with assms have n: "n = 2 ^ 53" by simp
  have "bit_length n \<le> 54" "\<not> bit_length n \<le> 53"
    unfolding bit_length_le_iff n by simp_all
  then have "bit_length n = 54" by simp
  then show ?thesis unfolding float_of_nat_def Let_def by (simp add: n)
qed

text \<open>
  The rounding of a number of more than 53 bits: the result is within half a unit of the
  last kept bit, and that is at most the number divided by \<open>2\<^sup>5\<^sup>3\<close>.
\<close>

lemma round_half_even_near:
  fixes n e :: nat
  assumes "0 < e"
  defines "q \<equiv> n div 2 ^ e" and "r \<equiv> n mod 2 ^ e" and "half \<equiv> 2 ^ (e - 1)"
  defines "m \<equiv> (if half < r \<or> (r = half \<and> odd q) then q + 1 else q)"
  shows "m * 2 ^ e \<le> n + half" and "n \<le> m * 2 ^ e + half" and "q \<le> m"
proof -
  from assms(1) have two: "(2 :: nat) ^ e = 2 * half"
    unfolding half_def by (cases e) simp_all
  have n: "n = q * 2 ^ e + r" unfolding q_def r_def by (rule div_mult_mod_eq [symmetric])
  have r: "r < 2 * half" unfolding r_def two [symmetric] by simp
  show "q \<le> m" unfolding m_def by simp
  show "m * 2 ^ e \<le> n + half"
  proof (cases "half < r \<or> (r = half \<and> odd q)")
    case True
    then have "m = q + 1" "half \<le> r" unfolding m_def by auto
    then show ?thesis using n two by (simp add: algebra_simps)
  next
    case False
    then have "m = q" unfolding m_def by auto
    then show ?thesis using n by simp
  qed
  show "n \<le> m * 2 ^ e + half"
  proof (cases "half < r \<or> (r = half \<and> odd q)")
    case True
    then have "m = q + 1" unfolding m_def by auto
    then show ?thesis using n two r by (simp add: algebra_simps)
  next
    case False
    then have "m = q" "r \<le> half" unfolding m_def by auto
    then show ?thesis using n by simp
  qed
qed

lemma float_of_nat_cases:
  assumes "\<not> bit_length n \<le> 53"
  obtains e m where "e = bit_length n - 53" "0 < e"
    "float_of_nat n = (if 2 ^ 1024 \<le> m * 2 ^ e then Infinity else Float (real (m * 2 ^ e)))"
    "m * 2 ^ e \<le> n + 2 ^ (e - 1)" "n \<le> m * 2 ^ e + 2 ^ (e - 1)" "n div 2 ^ e \<le> m"
    "2 ^ (e - 1) * 2 ^ 53 \<le> n"
proof -
  define e where "e = bit_length n - 53"
  define m where "m = (if 2 ^ (e - 1) < n mod 2 ^ e \<or> (n mod 2 ^ e = 2 ^ (e - 1) \<and> odd (n div 2 ^ e))
      then n div 2 ^ e + 1 else n div 2 ^ e)"
  from assms have e: "0 < e" unfolding e_def by simp
  from assms have "n \<noteq> 0" by (cases "n = 0") (simp_all add: bit_length_0)
  from bit_length_bounds(1) [OF this] have "2 ^ (bit_length n - 1) \<le> n" .
  moreover have "bit_length n - 1 = (e - 1) + 53" using assms unfolding e_def by simp
  ultimately have low: "2 ^ (e - 1) * 2 ^ 53 \<le> n" by (simp add: power_add)
  have val: "float_of_nat n = (if 2 ^ 1024 \<le> m * 2 ^ e then Infinity else Float (real (m * 2 ^ e)))"
    using assms unfolding float_of_nat_def Let_def e_def [symmetric] m_def [symmetric] by simp
  from round_half_even_near [OF e, of n] 
  have "m * 2 ^ e \<le> n + 2 ^ (e - 1)" "n \<le> m * 2 ^ e + 2 ^ (e - 1)" "n div 2 ^ e \<le> m"
    unfolding m_def by simp_all
  with that [OF e_def e val] low show thesis by blast
qed

lemma float_of_nat_near:
  assumes "float_of_nat n = Float x"
  shows "\<bar>x - real n\<bar> * 2 ^ 53 \<le> real n"
proof (cases "bit_length n \<le> 53")
  case True
  with assms show ?thesis by (simp add: float_of_nat_def)
next
  case False
  from float_of_nat_cases [OF False] obtain e m where
      val: "float_of_nat n = (if 2 ^ 1024 \<le> m * 2 ^ e then Infinity else Float (real (m * 2 ^ e)))"
      and up: "m * 2 ^ e \<le> n + 2 ^ (e - 1)" and down: "n \<le> m * 2 ^ e + 2 ^ (e - 1)"
      and low: "2 ^ (e - 1) * 2 ^ 53 \<le> n"
    by metis
  from val assms have x: "x = real (m * 2 ^ e)" by (auto split: if_splits)
  from up have "real (m * 2 ^ e) \<le> real (n + 2 ^ (e - 1))" by (rule of_nat_mono)
  moreover from down have "real n \<le> real (m * 2 ^ e + 2 ^ (e - 1))" by (rule of_nat_mono)
  ultimately have "\<bar>x - real n\<bar> \<le> real (2 ^ (e - 1))" unfolding x by simp
  then have "\<bar>x - real n\<bar> * 2 ^ 53 \<le> real (2 ^ (e - 1)) * 2 ^ 53" by simp
  also have "\<dots> = real (2 ^ (e - 1) * 2 ^ 53)" by simp
  also from low have "\<dots> \<le> real n" by (rule of_nat_mono)
  finally show ?thesis .
qed

lemma float_of_nat_overflow:
  assumes "2 ^ 1024 \<le> n"
  shows "float_of_nat n = Infinity"
proof -
  from assms have big: "\<not> bit_length n \<le> 1024" by (simp add: bit_length_le_iff)
  then have False: "\<not> bit_length n \<le> 53" by simp
  from float_of_nat_cases [OF False] obtain e m where e: "e = bit_length n - 53" "0 < e"
      and val: "float_of_nat n = (if 2 ^ 1024 \<le> m * 2 ^ e then Infinity else Float (real (m * 2 ^ e)))"
      and q: "n div 2 ^ e \<le> m" and low: "2 ^ (e - 1) * 2 ^ 53 \<le> n"
    by metis
  from e(2) have "(2 :: nat) ^ (e - 1) * 2 ^ 53 = 2 ^ 52 * 2 ^ e"
    by (cases e) (simp_all add: power_add)
  with low have "2 ^ 52 * 2 ^ e \<le> n" by simp
  then have "2 ^ 52 \<le> n div 2 ^ e" by (simp add: less_eq_div_iff_mult_less_eq)
  with q have "2 ^ 52 * 2 ^ e \<le> m * 2 ^ e" by simp
  moreover have "(2 :: nat) ^ 1024 \<le> 2 ^ 52 * 2 ^ e"
  proof -
    from big e(1) have "1024 \<le> 52 + e" by simp
    then have "(2 :: nat) ^ 1024 \<le> 2 ^ (52 + e)" by (rule power_increasing) simp
    then show ?thesis by (simp add: power_add)
  qed
  ultimately have "2 ^ 1024 \<le> m * 2 ^ e" by (rule order_trans [rotated])
  with val show ?thesis by simp
qed

lemma float_of_nat_rounds: "float_of_nat 9007199254740993 = Float 9007199254740992"
proof -
  have "bit_length 9007199254740993 \<le> 54" "\<not> bit_length 9007199254740993 \<le> 53"
    unfolding bit_length_le_iff by simp_all
  then have "bit_length 9007199254740993 = 54" by simp
  then show ?thesis unfolding float_of_nat_def Let_def by simp
qed

subsection \<open>The walk and the collision loop\<close>

lemma rglob_below: "(p, e) \<in> set (rglob dir x) \<Longrightarrow> \<exists>rel. rel \<noteq> [] \<and> p = dir @ rel"
proof (induction dir x arbitrary: p e rule: rglob.induct)
  case (1 dir listable link kids st)
  from 1(2) have listable: listable by (auto split: if_splits)
  with 1(2) have "(p, e) \<in> set (map (\<lambda>(n, e). (dir @ [n], e)) kids)
      \<or> (\<exists>n k. (n, k) \<in> set kids \<and> descends k \<and> (p, e) \<in> set (rglob (dir @ [n]) k))"
    by (auto split: if_splits)
  then consider (child) "(p, e) \<in> set (map (\<lambda>(n, e). (dir @ [n], e)) kids)"
    | (deeper) n k where "(n, k) \<in> set kids" "descends k" "(p, e) \<in> set (rglob (dir @ [n]) k)"
    by blast
  then show ?case
  proof cases
    case child
    then obtain n where "p = dir @ [n]" by auto
    then show ?thesis by blast
  next
    case deeper
    from 1(1) [OF listable deeper(1) refl deeper(2,3)] obtain rel where "p = (dir @ [n]) @ rel"
      by blast
    then have "n # rel \<noteq> [] \<and> p = dir @ (n # rel)" by simp
    then show ?thesis by blast
  qed
qed simp_all

text \<open>
  The walk yields every entry it reaches.
\<close>

lemma rglob_reached:
  "reached x rel \<Longrightarrow> lookup x rel = Some e \<Longrightarrow> rel \<noteq> [] \<Longrightarrow> (dir @ rel, e) \<in> set (rglob dir x)"
proof (induction rel arbitrary: x dir)
  case Nil then show ?case by simp
next
  case (Cons n rel)
  from Cons.prems(1) obtain listable link kids st k where x: "x = Dir listable link kids st"
      and listable: listable and k: "map_of kids n = Some k"
      and r: "rel = [] \<or> descends k" "reached k rel"
    by (cases x) (auto split: option.splits)
  from Cons.prems(2) x k have e: "lookup k rel = Some e" by simp
  from k have mem: "(n, k) \<in> set kids" by (rule map_of_SomeD)
  show ?case
  proof (cases "rel = []")
    case True
    with e have "k = e" by simp
    with mem True x listable show ?thesis by force
  next
    case False
    with r(1) have down: "descends k" by simp
    from Cons.IH [OF r(2) e False, of "dir @ [n]"] have "(dir @ n # rel, e) \<in> set (rglob (dir @ [n]) k)"
      by simp
    with mem x listable down show ?thesis by force
  qed
qed

lemma dict_set_fresh: "k \<notin> set (dict_keys d) \<Longrightarrow> dict_set d k v = d @ [(k, v)]"
  by (induction d) (auto simp: dict_keys_def)

lemma map_of_dict_set:
  "map_of (dict_set d k v) k' = (if k' = k then Some v else map_of d k')"
  by (induction d) auto

text \<open>
  What the loop returns: the identifier itself when it is free; otherwise the first candidate
  from \<open>counter\<close> on that is free, every candidate before it being taken.
\<close>

lemma resolve_collision_result:
  "\<exists>k. counter \<le> k
     \<and> resolve_collision rs original ident counter
         = (if ident \<in> set (dict_keys rs) then suffixed original k else ident)
     \<and> resolve_collision rs original ident counter \<notin> set (dict_keys rs)
     \<and> (\<forall>j. counter \<le> j \<and> j < k \<longrightarrow> suffixed original j \<in> set (dict_keys rs))"
proof (induction rs original ident counter rule: resolve_collision.induct)
  case (1 rs original ident counter)
  show ?case
  proof (cases "ident \<in> set (dict_keys rs)")
    case False
    then have "resolve_collision rs original ident counter = ident"
      by (simp add: resolve_collision.simps [of rs original ident counter])
    with False show ?thesis by auto
  next
    case True
    then have step: "resolve_collision rs original ident counter
        = resolve_collision rs original (suffixed original counter) (counter + 1)"
      by (simp add: resolve_collision.simps [of rs original ident counter])
    from 1 [OF True] obtain k where k: "counter + 1 \<le> k"
      "resolve_collision rs original (suffixed original counter) (counter + 1)
         = (if suffixed original counter \<in> set (dict_keys rs) then suffixed original k
            else suffixed original counter)"
      "resolve_collision rs original (suffixed original counter) (counter + 1) \<notin> set (dict_keys rs)"
      "\<forall>j. counter + 1 \<le> j \<and> j < k \<longrightarrow> suffixed original j \<in> set (dict_keys rs)"
      by blast
    show ?thesis
    proof (cases "suffixed original counter \<in> set (dict_keys rs)")
      case taken: True
      have "\<forall>j. counter \<le> j \<and> j < k \<longrightarrow> suffixed original j \<in> set (dict_keys rs)"
      proof (intro allI impI)
        fix j assume j: "counter \<le> j \<and> j < k"
        show "suffixed original j \<in> set (dict_keys rs)"
        proof (cases "j = counter")
          case True with taken show ?thesis by simp
        next
          case False
          with j have "counter + 1 \<le> j \<and> j < k" by simp
          with k(4) show ?thesis by blast
        qed
      qed
      moreover from k(1) have "counter \<le> k" by simp
      ultimately show ?thesis using True taken k(2,3) step by auto
    next
      case free: False
      with True k(2,3) step
      have "counter \<le> counter
        \<and> resolve_collision rs original ident counter
            = (if ident \<in> set (dict_keys rs) then suffixed original counter else ident)
        \<and> resolve_collision rs original ident counter \<notin> set (dict_keys rs)
        \<and> (\<forall>j. counter \<le> j \<and> j < counter \<longrightarrow> suffixed original j \<in> set (dict_keys rs))"
        by auto
      then show ?thesis ..
    qed
  qed
qed

lemma resolve_collision_fresh:
  "resolve_collision rs original ident counter \<notin> set (dict_keys rs)"
  using resolve_collision_result [of counter rs original ident] by blast

lemma resolve_collision_no_newline:
  assumes "10 \<notin> set base"
  shows "10 \<notin> set (resolve_collision rs base base counter)"
proof -
  from resolve_collision_result [of counter rs base base]
  obtain k where "resolve_collision rs base base counter
      = (if base \<in> set (dict_keys rs) then suffixed base k else base)"
    by blast
  with assms str_nat_no_newline [of k] show ?thesis
    by (auto simp: suffixed_def lit_simps)
qed

lemma collect_file_skip: "\<not> eligible f \<Longrightarrow> collect_file P dir rs f = Inr rs"
  by (cases f) (auto simp: collect_file_def eligible_def)

lemma collect_file_add:
  assumes "eligible f" and "collect_file P dir rs f = Inr rs'"
  shows "\<exists>r. rs' = rs @ [r] \<and> fst r \<notin> set (dict_keys rs) \<and> fst (snd r) = fst f
           \<and> entry_ok P dir rs r"
proof -
  obtain file_path e where f: "f = (file_path, e)" by (cases f)
  from assms f obtain rel where rel: "relative_to file_path dir = Inr rel"
    by (cases "relative_to file_path dir") (auto simp: collect_file_def eligible_def)
  from assms f rel obtain base where base: "sanitize_identifier P (as_posix rel) = Inr base"
    by (cases "sanitize_identifier P (as_posix rel)") (auto simp: collect_file_def eligible_def)
  let ?k = "resolve_collision rs base base 1"
  let ?r = "(?k, file_path, as_posix rel, parse_design_scale P (basename file_path))"
  have fresh: "?k \<notin> set (dict_keys rs)" by (rule resolve_collision_fresh)
  from assms f rel base have "rs' = dict_set rs ?k (snd ?r)"
    by (simp add: collect_file_def eligible_def Let_def)
  with fresh have "rs' = rs @ [?r]" by (simp add: dict_set_fresh)
  moreover have "entry_ok P dir rs ?r"
    using rel base by (simp add: entry_ok_def)
  ultimately have "rs' = rs @ [?r] \<and> fst ?r \<notin> set (dict_keys rs) \<and> fst (snd ?r) = fst f
      \<and> entry_ok P dir rs ?r"
    using fresh f by simp
  then show ?thesis ..
qed

lemma collect_loop_snoc:
  "collect_loop P dir rs (walk @ [f]) =
     (case collect_loop P dir rs walk of
        Inl err \<Rightarrow> Inl err
      | Inr rs1 \<Rightarrow> collect_file P dir rs1 f)"
  by (induction walk arbitrary: rs) (auto split: sum.splits)

text \<open>
  The invariant of the collector's loop, for every order of the walk: the key it stores is
  free, so the assignment adds an entry and replaces none.
\<close>

lemma collect_loop_invariant:
  assumes "collect_loop P dir [] walk = Inr rs"
  shows "distinct (dict_keys rs)
       \<and> map (\<lambda>r. fst (snd r)) rs = map fst (filter eligible walk)
       \<and> (\<forall>i < length rs. entry_ok P dir (take i rs) (rs ! i))"
  using assms
proof (induction walk arbitrary: rs rule: rev_induct)
  case Nil
  then show ?case by (simp add: dict_keys_def)
next
  case (snoc f walk)
  from snoc.prems obtain rs1 where rs1: "collect_loop P dir [] walk = Inr rs1"
      and step: "collect_file P dir rs1 f = Inr rs"
    by (auto simp: collect_loop_snoc split: sum.splits)
  note IH = snoc.IH [OF rs1]
  show ?case
  proof (cases "eligible f")
    case False
    with step have "rs = rs1" by (simp add: collect_file_skip)
    with IH False show ?thesis by simp
  next
    case True
    from collect_file_add [OF True step] obtain r where r: "rs = rs1 @ [r]"
        "fst r \<notin> set (dict_keys rs1)" "fst (snd r) = fst f" "entry_ok P dir rs1 r"
      by blast
    have "distinct (dict_keys rs)"
      using IH r(1,2) by (simp add: dict_keys_def)
    moreover have "map (\<lambda>r. fst (snd r)) rs = map fst (filter eligible (walk @ [f]))"
      using IH r(1,3) True by simp
    moreover have "\<forall>i < length rs. entry_ok P dir (take i rs) (rs ! i)"
    proof (intro allI impI)
      fix i assume "i < length rs"
      then consider "i < length rs1" | "i = length rs1" using r(1) by force
      then show "entry_ok P dir (take i rs) (rs ! i)"
      proof cases
        case 1
        with IH r(1) show ?thesis by (simp add: nth_append)
      next
        case 2
        with r(1,4) show ?thesis by simp
      qed
    qed
    ultimately show ?thesis by blast
  qed
qed

lemma collect_resources_walked:
  "collect_resources P fs dir = collect_loop P dir [] (walked fs dir)"
  by (simp add: collect_resources_def walked_def split: option.splits)

lemma walked_below:
  "(p, e) \<in> set (walked fs dir) \<Longrightarrow> \<exists>rel. rel \<noteq> [] \<and> p = dir @ rel"
  by (auto simp: walked_def split: option.splits dest: rglob_below)

lemma basename_last: "basename p = (if p = [] then [] else last p)"
  by (cases p) (simp_all add: basename_def)

lemma basename_append: "rel \<noteq> [] \<Longrightarrow> basename (dir @ rel) = last rel"
  by (simp add: basename_last)

lemma as_posix_join: "rel \<noteq> [] \<Longrightarrow> as_posix rel = join (lit ''/'') rel"
  by (cases rel) (auto simp: as_posix_def)

lemma relative_to_append: "relative_to (dir @ rel) dir = Inr rel"
  by (simp add: relative_to_def startswith_def)

lemma collected_entry:
  assumes "collect_resources P fs dir = Inr rs" and "i < length rs"
  shows "\<exists>rel e. rel \<noteq> [] \<and> fst (snd (rs ! i)) = dir @ rel \<and> (dir @ rel, e) \<in> set (walked fs dir)
           \<and> eligible (dir @ rel, e) \<and> entry_ok P dir (take i rs) (rs ! i)"
proof -
  from assms(1) have loop: "collect_loop P dir [] (walked fs dir) = Inr rs"
    by (simp add: collect_resources_walked)
  note inv = collect_loop_invariant [OF loop]
  from inv assms(2) have "fst (snd (rs ! i)) \<in> set (map fst (filter eligible (walked fs dir)))"
    by (metis (no_types, lifting) length_map nth_map nth_mem)
  then obtain e where e: "(fst (snd (rs ! i)), e) \<in> set (walked fs dir)" "eligible (fst (snd (rs ! i)), e)"
    by auto
  from walked_below [OF e(1)] obtain rel where "rel \<noteq> []" "fst (snd (rs ! i)) = dir @ rel" by blast
  with e inv assms(2) show ?thesis by auto
qed

lemma collected_identifiers_no_newline:
  assumes "collect_resources P fs dir = Inr rs" and "r \<in> set rs"
  shows "10 \<notin> set (fst r)"
proof -
  from assms(2) obtain i where i: "i < length rs" "rs ! i = r"
    by (auto simp: in_set_conv_nth)
  from collected_entry [OF assms(1) i(1)] i(2) have "entry_ok P dir (take i rs) r"
    by auto
  then obtain base where "sanitize_identifier P (fst (snd (snd r))) = Inr base"
      "fst r = resolve_collision (take i rs) base base 1"
    by (cases r) (auto simp: entry_ok_def)
  with sanitize_identifier_no_newline [of P _ base] resolve_collision_no_newline [of base]
  show ?thesis by simp
qed

subsection \<open>The emitters\<close>

lemma header_loop:
  "foldl (\<lambda>content (ident, _). content @ header_declaration ident) acc rs
     = acc @ concat (map header_declaration (dict_keys rs))"
  by (induction rs arbitrary: acc) (auto simp: dict_keys_def)

lemma header_content_eq:
  "header_content rs ns =
     header_prologue ns @ concat (map header_declaration (dict_keys rs)) @ header_epilogue ns"
  by (simp add: header_content_def header_loop)

lemma array_loop:
  "foldl (\<lambda>content ident. content @ source_array_item ident) acc ks
     = acc @ concat (map source_array_item ks)"
  by (induction ks arbitrary: acc) auto

lemma read_bytes_error: "read_bytes fs p = Inl err \<Longrightarrow> err = OSError"
  by (auto simp: read_bytes_def split: option.splits entry.splits if_splits)

lemma source_definitions_returns:
  assumes "source_definitions P fs acc rs = Inr out"
  shows "\<exists>datas. length datas = length rs
           \<and> (\<forall>i < length rs. read_bytes fs (fst (snd (rs ! i))) = Inr (datas ! i))
           \<and> out = acc @ concat (map (\<lambda>(r, data). definition_of P r data) (zip rs datas))"
  using assms
proof (induction rs arbitrary: acc)
  case Nil
  then show ?case by simp
next
  case (Cons r rs)
  obtain ident file_path relative_path design_scale
    where r: "r = (ident, file_path, relative_path, design_scale)" by (cases r)
  from Cons.prems r obtain data where data: "read_bytes fs file_path = Inr data"
      and rest: "source_definitions P fs
                   (acc @ resource_definition P ident data relative_path design_scale) rs = Inr out"
    by (auto split: sum.splits)
  from Cons.IH [OF rest] obtain datas where datas: "length datas = length rs"
      "\<forall>i < length rs. read_bytes fs (fst (snd (rs ! i))) = Inr (datas ! i)"
      "out = (acc @ resource_definition P ident data relative_path design_scale)
             @ concat (map (\<lambda>(r, data). definition_of P r data) (zip rs datas))"
    by blast
  have "\<forall>i < length (r # rs). read_bytes fs (fst (snd ((r # rs) ! i))) = Inr ((data # datas) ! i)"
  proof (intro allI impI)
    fix i assume "i < length (r # rs)"
    then show "read_bytes fs (fst (snd ((r # rs) ! i))) = Inr ((data # datas) ! i)"
      using data datas(2) r by (cases i) auto
  qed
  moreover have "length (data # datas) = length (r # rs)" using datas(1) by simp
  moreover have "out = acc @ concat (map (\<lambda>(r, data). definition_of P r data) (zip (r # rs) (data # datas)))"
    using datas(3) r by (simp add: definition_of_def)
  ultimately show ?case by blast
qed

lemma source_definitions_fails:
  assumes "r \<in> set rs" and "read_bytes fs (fst (snd r)) = Inl err"
  shows "source_definitions P fs acc rs = Inl OSError"
  using assms
proof (induction rs arbitrary: acc)
  case Nil
  then show ?case by simp
next
  case (Cons x rs)
  obtain ident file_path relative_path design_scale
    where x: "x = (ident, file_path, relative_path, design_scale)" by (cases x)
  show ?case
  proof (cases "read_bytes fs file_path")
    case (Inl e)
    then have "e = OSError" by (rule read_bytes_error)
    with Inl x show ?thesis by simp
  next
    case (Inr data)
    with Cons.prems x have "r \<in> set rs" by auto
    from Cons.IH [OF this Cons.prems(2)] Inr x show ?thesis by simp
  qed
qed


lemma map_of_write_text:
  "write_text w p t = (None, w') \<Longrightarrow>
     map_of (outputs w') p' = (if p' = p then Some (Text t) else map_of (outputs w) p')"
  by (auto simp: write_text_def map_of_dict_set split: if_splits sum.splits)



text \<open>
  The literal of a byte list reads back as the byte list.
\<close>

lemma hex_value_hex_digit: "d < 16 \<Longrightarrow> hex_value (hex_digit d) = Some d"
  by (simp add: hex_value_def hex_digit_def)

lemma decode_byte_token: "decode_byte (lit ''0x'' @ hex2 b) = Some b"
proof -
  have "unat b < 256" using unsigned_less [of b] by simp
  then have d: "unat b div 16 < 16" "unat b mod 16 < 16" by simp_all
  have "(of_nat (16 * (unat b div 16) + unat b mod 16) :: byte) = b" by simp
  with d show ?thesis
    by (simp add: decode_byte_def lit_def hex2_def hex_value_hex_digit)
qed

lemma decode_byte_space: "decode_byte (lit '' '' @ t) = decode_byte t"
  by (simp add: decode_byte_def lit_def)

lemma those_Some: "those (map Some xs) = Some xs"
  by (induction xs) auto

lemma hex_token_no_comma: "44 \<notin> set (lit ''0x'' @ hex2 b)"
proof -
  have "unat b < 256" using unsigned_less [of b] by simp
  then have d: "unat b div 16 < 16" "unat b mod 16 < 16" by simp_all
  then show ?thesis by (simp add: lit_def hex2_def hex_digit_def)
qed

lemma decode_hex_data_hex_data: "decode_hex_data (hex_data data) = Some data"
proof (cases data)
  case Nil
  then show ?thesis by (simp add: decode_hex_data_def hex_data_def)
next
  case (Cons b bs)
  let ?toks = "map (\<lambda>b. lit ''0x'' @ hex2 b) data"
  have sep: "lit '', '' = 44 # lit '' ''" by (simp add: lit_def)
  have "split_on 44 (hex_data data) = hd ?toks # map ((@) (lit '' '')) (tl ?toks)"
    unfolding hex_data_def sep
    by (rule split_on_join) (use Cons hex_token_no_comma in \<open>auto simp: lit_def\<close>)
  then have split: "split_on 44 (hex_data data)
      = (lit ''0x'' @ hex2 b) # map (\<lambda>b. lit '' '' @ lit ''0x'' @ hex2 b) bs"
    using Cons by simp
  have "hex_data data \<noteq> []"
    using Cons by (cases bs) (simp_all add: hex_data_def lit_def)
  moreover have "those (map decode_byte (split_on 44 (hex_data data))) = Some (b # bs)"
    unfolding split
    by (simp add: decode_byte_token decode_byte_space those_Some comp_def)
  ultimately show ?thesis using Cons by (simp add: decode_hex_data_def)
qed

lemma hex_data_no_newline: "10 \<notin> set (hex_data data)"
proof -
  have tok: "10 \<notin> set (lit ''0x'' @ hex2 b)" for b :: byte
  proof -
    have "unat b < 256" using unsigned_less [of b] by simp
    then have "unat b div 16 < 16" "unat b mod 16 < 16" by simp_all
    then show ?thesis by (simp add: lit_def hex2_def hex_digit_def)
  qed
  have "10 \<notin> set (join (lit '', '') toks)" if "\<forall>t \<in> set toks. 10 \<notin> set t" for toks :: "pystr list"
    using that by (induction "lit '', ''" toks rule: join.induct) (auto simp: lit_def)
  then show ?thesis unfolding hex_data_def using tok by simp
qed

text \<open>
  The first seven lines of a definition, when the identifier holds no line break.
\<close>

lemma resource_definition_lines:
  "resource_definition P ident data relative_path design_scale =
     (lit ''static const unsigned char '' @ ident @ lit ''_data[] = {'') @ 10 #
     (lit ''    '' @ hex_data data) @ 10 #
     lit ''};'' @ 10 #
     10 #
     (lit ''const ResourceData '' @ ident @ lit '' = {'') @ 10 #
     (lit ''    '' @ ident @ lit ''_data,'') @ 10 #
     (lit ''    '' @ str_nat (length data) @ lit '','') @ 10 #
     (lit ''    '' @ [34] @ relative_path @ [34] @ lit '','' @ [10] @
      lit ''    '' @ float_repr P design_scale @ lit ''f'' @ [10] @
      lit ''};'' @ [10, 10])"
  by (simp add: resource_definition_def lit_def)

lemma resource_definition_split:
  assumes "10 \<notin> set ident"
  shows "\<exists>rest. split_on 10 (resource_definition P ident data relative_path design_scale) =
     [lit ''static const unsigned char '' @ ident @ lit ''_data[] = {'',
      lit ''    '' @ hex_data data,
      lit ''};'',
      [],
      lit ''const ResourceData '' @ ident @ lit '' = {'',
      lit ''    '' @ ident @ lit ''_data,'',
      lit ''    '' @ str_nat (length data) @ lit '','']
     @ rest"
proof -
  have l0: "10 \<notin> set (lit ''static const unsigned char '' @ ident @ lit ''_data[] = {'')"
    and l4: "10 \<notin> set (lit ''const ResourceData '' @ ident @ lit '' = {'')"
    and l5: "10 \<notin> set (lit ''    '' @ ident @ lit ''_data,'')"
    using assms by (simp_all add: lit_def)
  have l1: "10 \<notin> set (lit ''    '' @ hex_data data)"
    using hex_data_no_newline [of data] by (simp add: lit_def)
  have l2: "10 \<notin> set (lit ''};'')" by (simp add: lit_def)
  have l6: "10 \<notin> set (lit ''    '' @ str_nat (length data) @ lit '','')"
    using str_nat_no_newline [of "length data"] by (simp add: lit_def)
  show ?thesis
    unfolding resource_definition_lines
    by (simp only: split_on_line [OF l0] split_on_line [OF l1] split_on_line [OF l2]
        split_on_empty_line split_on_line [OF l4] split_on_line [OF l5] split_on_line [OF l6]
        append_Cons append_Nil) blast
qed

lemma resource_definition_fields:
  assumes "10 \<notin> set ident"
  shows "array_literal (resource_definition P ident data relative_path design_scale) = hex_data data"
    and "size_field (resource_definition P ident data relative_path design_scale) = str_nat (length data)"
proof -
  from resource_definition_split [OF assms, of P data relative_path design_scale]
  obtain rest where split: "split_on 10 (resource_definition P ident data relative_path design_scale) =
     [lit ''static const unsigned char '' @ ident @ lit ''_data[] = {'',
      lit ''    '' @ hex_data data,
      lit ''};'',
      [],
      lit ''const ResourceData '' @ ident @ lit '' = {'',
      lit ''    '' @ ident @ lit ''_data,'',
      lit ''    '' @ str_nat (length data) @ lit '','']
     @ rest" ..
  show "array_literal (resource_definition P ident data relative_path design_scale) = hex_data data"
    unfolding array_literal_def split by (simp add: lit_def)
  show "size_field (resource_definition P ident data relative_path design_scale) = str_nat (length data)"
    unfolding size_field_def split by (simp add: lit_def butlast_append)
qed















subsection \<open>The run\<close>

text \<open>
  When a text can be encoded, and with it written.
\<close>

lemma lit_encodable: "list_all encodable (lit s)"
proof -
  have "encodable (of_char c)" for c :: char
  proof -
    have "(of_char c :: nat) mod 256 = of_char c" by (rule of_char_mod_256)
    then have "(of_char c :: nat) < 256" by (metis mod_less_divisor zero_less_numeral)
    then show ?thesis unfolding encodable_def by linarith
  qed
  then show ?thesis by (simp add: lit_def list_all_iff)
qed

lemma str_nat_encodable: "list_all encodable (str_nat n)"
  using str_nat_digits [of _ n] by (fastforce simp: list_all_iff encodable_def)

lemma hex_data_encodable: "list_all encodable (hex_data data)"
proof -
  have tok: "list_all encodable (lit ''0x'' @ hex2 b)" for b :: byte
  proof -
    have "unat b < 256" using unsigned_less [of b] by simp
    then have "unat b div 16 < 16" "unat b mod 16 < 16" by simp_all
    moreover have "hex_digit d < 128" if "d < 16" for d
      using that by (simp add: hex_digit_def)
    ultimately have "hex_digit (unat b div 16) < 128" "hex_digit (unat b mod 16) < 128"
      by blast+
    then have "encodable (hex_digit (unat b div 16))" "encodable (hex_digit (unat b mod 16))"
      unfolding encodable_def by linarith+
    then show ?thesis by (simp add: hex2_def lit_encodable)
  qed
  have "list_all encodable (join (lit '', '') toks)"
    if "\<forall>t \<in> set toks. list_all encodable t" for toks :: "pystr list"
    using that lit_encodable [of "'', ''"]
    by (induction "lit '', ''" toks rule: join.induct) auto
  then show ?thesis unfolding hex_data_def using tok by simp
qed

lemma isl_utf8_encode: "isl (utf8_encode s) \<longleftrightarrow> \<not> list_all encodable s"
  using utf8_encode_cases [of s] utf8_encode_fails_iff [of s] by (auto simp: list_all_iff)

lemma header_content_encodable:
  assumes "list_all encodable ns" and "\<forall>k \<in> set (dict_keys rs). list_all encodable k"
  shows "list_all encodable (header_content rs ns)"
proof -
  have "list_all encodable (concat (map header_declaration ks))"
    if "\<forall>k \<in> set ks. list_all encodable k" for ks
    using that by (induction ks) (simp_all add: header_declaration_def lit_encodable)
  with assms show ?thesis
    by (simp add: header_content_eq header_prologue_def header_epilogue_def lit_encodable)
qed

lemma resource_definition_encodable:
  assumes "list_all encodable ident" and "list_all encodable relative_path"
      and "list_all encodable (float_repr P design_scale)"
  shows "list_all encodable (resource_definition P ident data relative_path design_scale)"
  using assms
  by (simp add: resource_definition_def lit_encodable str_nat_encodable hex_data_encodable
      encodable_def)

lemma source_content_encodable:
  assumes "source_content P fs rs ns hn = Inr content"
      and "list_all encodable ns" and "list_all encodable hn"
      and "\<forall>r \<in> set rs. list_all encodable (fst r) \<and> list_all encodable (fst (snd (snd r)))
             \<and> list_all encodable (float_repr P (snd (snd (snd r))))"
  shows "list_all encodable content"
proof -
  from assms(1) obtain defs where defs:
      "source_definitions P fs (source_prologue ns hn) rs = Inr defs"
      and body: "content = defs @ source_array_open (length rs)
          @ concat (map source_array_item (dict_keys rs)) @ source_epilogue ns"
    by (auto simp: source_content_def array_loop split: sum.splits)
  from source_definitions_returns [OF defs] obtain datas where datas:
      "defs = source_prologue ns hn
          @ concat (map (\<lambda>(r, data). definition_of P r data) (zip rs datas))"
    by blast
  have one: "list_all encodable (definition_of P r data)" if "r \<in> set rs" for r data
  proof -
    obtain ident file_path relative_path design_scale
      where r: "r = (ident, file_path, relative_path, design_scale)" by (cases r)
    from that assms(4) r have "list_all encodable ident" "list_all encodable relative_path"
      "list_all encodable (float_repr P design_scale)"
      by auto
    then show ?thesis
      unfolding r definition_of_def prod.case by (rule resource_definition_encodable)
  qed
  have "list_all encodable (concat (map (\<lambda>(r, data). definition_of P r data) (zip rs datas)))"
    unfolding list_all_iff using one by (auto simp: list_all_iff dest: set_zip_leftD)
  moreover have "list_all encodable (concat (map source_array_item (dict_keys rs)))"
    unfolding list_all_iff using assms(4) lit_encodable
    by (auto simp: list_all_iff source_array_item_def dict_keys_def)
  ultimately show ?thesis
    using assms(2,3) unfolding body datas
    by (simp add: source_prologue_def source_array_open_def source_epilogue_def
        lit_encodable str_nat_encodable encodable_def)
qed

lemma write_text_returns:
  assumes "writable w p" and "list_all encodable t"
  shows "write_text w p t = (None, w\<lparr>outputs := dict_set (outputs w) p (Text t)\<rparr>)"
proof -
  from assms(2) have "\<not> isl (utf8_encode t)" by (simp add: isl_utf8_encode)
  with assms(1) show ?thesis by (cases "utf8_encode t") (simp_all add: write_text_def)
qed


lemma python_latin1_float_repr: "list_all encodable (float_repr python_latin1 x)"
  by (cases x) (simp_all add: python_latin1_def lit_encodable str_nat_encodable)






subsection \<open>The examples\<close>

text \<open>
  The collection runs of the examples. The digests are computed: \<^verbatim>\<open>plain_33c11a06\<close> is what
  Python gives \<^verbatim>\<open>sanitize_identifier('plain.png')\<close>.
\<close>

lemma example_run:
  "collect_resources python_latin1 example_tree [lit ''res''] =
     Inr [(lit ''plain_33c11a06'', [lit ''res'', lit ''plain.png''], lit ''plain.png'', Float 1),
          (lit ''a_2x_eadcf878'', [lit ''res'', lit ''assets'', lit ''icons'', lit ''a@2x.png''],
           lit ''assets/icons/a@2x.png'', Float 2),
          (lit ''logo_389e3531'', [lit ''res'', lit ''.cache'', lit ''logo.png''],
           lit ''.cache/logo.png'', Float 1)]"
  by code_simp

lemma example_collected:
  "collect_resources python_latin1 (tree example_world) (input_dir example_args) = Inr example_resources"
  using example_run by (simp add: example_world_def example_args_def example_resources_def)

lemma unreadable_collected:
  "collect_resources python_latin1 (tree unreadable_world) (input_dir example_args)
     = Inr [(lit ''plain_33c11a06'', [lit ''res'', lit ''plain.png''], lit ''plain.png'', Float 1)]"
  by code_simp

text \<open>
  The walk of the input directory with a directory that may not be listed and a link to a
  directory, and what the collector makes of it: \<^verbatim>\<open>locked/x.png\<close> and \<^verbatim>\<open>linkdir/z.png\<close> are regular
  files with visible names, and they are not collected.
\<close>

lemma locked_walk:
  "map fst (walked locked_tree [lit ''res''])
     = [[lit ''res'', lit ''locked''], [lit ''res'', lit ''linkdir''], [lit ''res'', lit ''plain.png'']]"
  by code_simp

lemma locked_run:
  "collect_resources python_latin1 locked_tree [lit ''res'']
     = Inr [(lit ''plain_33c11a06'', [lit ''res'', lit ''plain.png''], lit ''plain.png'', Float 1)]"
  by code_simp

text \<open>
  The run of the example ends without error; the run whose asset cannot be read fails and
  leaves the header.
\<close>

lemma example_resources_encodable:
  "\<forall>r \<in> set example_resources. list_all encodable (fst r) \<and> list_all encodable (fst (snd (snd r)))
     \<and> list_all encodable (float_repr python_latin1 (snd (snd (snd r))))"
  by (simp add: example_resources_def lit_encodable python_latin1_float_repr)



lemma unreadable_main:
  "main python_latin1 example_args unreadable_world =
     (Some OSError,
      unreadable_world\<lparr>outputs :=
        [(lit ''embedded_resources.h'',
          Text (header_content
            [(lit ''plain_33c11a06'', [lit ''res'', lit ''plain.png''], lit ''plain.png'', Float 1)]
            (lit ''Resources'')))]\<rparr>)"
proof -
  let ?rs = "[(lit ''plain_33c11a06'', [lit ''res'', lit ''plain.png''], lit ''plain.png'', Float 1)]"
  let ?w1 = "unreadable_world\<lparr>outputs :=
        [(lit ''embedded_resources.h'', Text (header_content ?rs (lit ''Resources'')))]\<rparr>"
  have "list_all encodable (header_content ?rs (lit ''Resources''))"
    by (intro header_content_encodable) (simp_all add: dict_keys_def lit_encodable)
  then have header: "generate_header ?rs (lit ''Resources'') (lit ''embedded_resources.h'')
      unreadable_world = (None, ?w1)"
    by (simp add: generate_header_def write_text_returns unreadable_world_def)
  have "read_bytes (tree unreadable_world) [lit ''res'', lit ''plain.png''] = Inl OSError"
    by code_simp
  then have "source_definitions python_latin1 (tree ?w1)
      (source_prologue (lit ''Resources'') (lit ''embedded_resources.h'')) ?rs = Inl OSError"
    by simp
  then have source: "generate_source python_latin1 ?rs (lit ''Resources'')
      (lit ''embedded_resources.h'') (lit ''embedded_resources.cpp'') ?w1 = (Some OSError, ?w1)"
    by (simp add: generate_source_def source_content_def)
  have "mkdir_ok unreadable_world" by (simp add: unreadable_world_def)
  with unreadable_collected header source show ?thesis
    by (simp add: main_def example_args_def)
qed

section \<open>The claims\<close>

text \<open>
  Claim C1. For every resource of the mapping a collection run returns, when the source
  emitter returns: it has read the bytes of the file at the resource's path; the source
  artifact is the prologue, the definitions of the resources in the order of the mapping, the
  array and the epilogue; the size written in a resource's definition reads back as the
  number of bytes read, and the array literal reads back as those bytes, in order.
\<close>

theorem generate_source_sizes_and_bytes:
  assumes "collect_resources P (tree w) dir = Inr resources"
      and "generate_source P resources ns header_name output_path w = (None, w')"
  shows "\<exists>datas. length datas = length resources
       \<and> (\<forall>i < length resources.
             read_bytes (tree w) (fst (snd (resources ! i))) = Inr (datas ! i))
       \<and> map_of (outputs w') output_path = Some (Text (
            source_prologue ns header_name
            @ concat (map (\<lambda>(r, data). definition_of P r data) (zip resources datas))
            @ source_array_open (length resources)
            @ concat (map source_array_item (dict_keys resources))
            @ source_epilogue ns))
       \<and> (\<forall>i < length resources.
             int_of_digits P (size_field (definition_of P (resources ! i) (datas ! i)))
               = length (datas ! i)
           \<and> decode_hex_data (array_literal (definition_of P (resources ! i) (datas ! i)))
               = Some (datas ! i))"
proof -
  from assms(2) obtain content where content:
      "source_content P (tree w) resources ns header_name = Inr content"
      and written: "write_text w output_path content = (None, w')"
    by (auto simp: generate_source_def split: sum.splits)
  from content obtain defs where defs:
      "source_definitions P (tree w) (source_prologue ns header_name) resources = Inr defs"
      and body: "content = defs @ source_array_open (length resources)
          @ concat (map source_array_item (dict_keys resources)) @ source_epilogue ns"
    by (auto simp: source_content_def array_loop split: sum.splits)
  from source_definitions_returns [OF defs] obtain datas where datas:
      "length datas = length resources"
      "\<forall>i < length resources. read_bytes (tree w) (fst (snd (resources ! i))) = Inr (datas ! i)"
      "defs = source_prologue ns header_name
          @ concat (map (\<lambda>(r, data). definition_of P r data) (zip resources datas))"
    by blast
  have fields: "int_of_digits P (size_field (definition_of P (resources ! i) (datas ! i)))
               = length (datas ! i)
           \<and> decode_hex_data (array_literal (definition_of P (resources ! i) (datas ! i)))
               = Some (datas ! i)" if "i < length resources" for i
  proof -
    obtain ident file_path relative_path design_scale
      where r: "resources ! i = (ident, file_path, relative_path, design_scale)"
      by (cases "resources ! i")
    from that have "resources ! i \<in> set resources" by simp
    from collected_identifiers_no_newline [OF assms(1) this] r have "10 \<notin> set ident" by simp
    from resource_definition_fields [OF this, of P "datas ! i" relative_path design_scale] r
    show ?thesis
      by (simp add: definition_of_def int_of_digits_str_nat decode_hex_data_hex_data)
  qed
  from written have "map_of (outputs w') output_path = Some (Text content)"
    by (simp add: map_of_write_text)
  with body datas fields show ?thesis by auto
qed

theorem generate_source_sizes_and_bytes_witness:
  "fst (generate_source python_latin1 example_resources (lit ''Resources'')
           (lit ''embedded_resources.h'') (lit ''embedded_resources.cpp'') example_world) = None
   \<and> read_bytes example_tree [lit ''res'', lit ''assets'', lit ''icons'', lit ''a@2x.png''] = Inr [1, 2, 255]
   \<and> size_field (definition_of python_latin1 (example_resources ! 1) [1, 2, 255]) = lit ''3''
   \<and> array_literal (definition_of python_latin1 (example_resources ! 1) [1, 2, 255])
       = lit ''0x01, 0x02, 0xff''
   \<and> int_of_digits python_latin1 (size_field (definition_of python_latin1 (example_resources ! 1) [1, 2, 255])) = 3
   \<and> decode_hex_data (array_literal (definition_of python_latin1 (example_resources ! 1) [1, 2, 255]))
       = Some [1, 2, 255]"
proof -
  let ?run = "generate_source python_latin1 example_resources (lit ''Resources'')
           (lit ''embedded_resources.h'') (lit ''embedded_resources.cpp'') example_world"
  have "\<not> isl (source_content python_latin1 (tree example_world) example_resources
      (lit ''Resources'') (lit ''embedded_resources.h''))"
    by code_simp
  then obtain content where content: "source_content python_latin1 (tree example_world)
      example_resources (lit ''Resources'') (lit ''embedded_resources.h'') = Inr content"
    by (cases "source_content python_latin1 (tree example_world) example_resources
      (lit ''Resources'') (lit ''embedded_resources.h'')") auto
  from source_content_encodable [OF content lit_encodable lit_encodable example_resources_encodable]
  have "list_all encodable content" .
  moreover have "writable example_world (lit ''embedded_resources.cpp'')"
    by (simp add: example_world_def)
  ultimately have run: "?run = (None, example_world\<lparr>outputs :=
      dict_set (outputs example_world) (lit ''embedded_resources.cpp'') (Text content)\<rparr>)"
    by (simp add: generate_source_def content write_text_returns)
  then have ok: "fst ?run = None" by simp
  have bytes: "read_bytes example_tree [lit ''res'', lit ''assets'', lit ''icons'', lit ''a@2x.png'']
      = Inr [1, 2, 255]"
    by code_simp
  have asset: "fst (snd (example_resources ! 1)) = [lit ''res'', lit ''assets'', lit ''icons'', lit ''a@2x.png'']"
    and len: "(1 :: nat) < length example_resources" and fs: "tree example_world = example_tree"
    by (simp_all add: example_resources_def example_world_def)
  from generate_source_sizes_and_bytes [OF example_collected run] obtain datas where
      reads: "\<forall>i < length example_resources.
             read_bytes (tree example_world) (fst (snd (example_resources ! i))) = Inr (datas ! i)"
      and fields: "\<forall>i < length example_resources.
             int_of_digits python_latin1
               (size_field (definition_of python_latin1 (example_resources ! i) (datas ! i)))
               = length (datas ! i)
           \<and> decode_hex_data (array_literal (definition_of python_latin1 (example_resources ! i) (datas ! i)))
               = Some (datas ! i)"
    by blast
  from reads len have "read_bytes (tree example_world) (fst (snd (example_resources ! 1))) = Inr (datas ! 1)"
    by blast
  with bytes asset fs have data: "datas ! 1 = [1, 2, 255]" by simp
  from fields len data
  have readback: "int_of_digits python_latin1
      (size_field (definition_of python_latin1 (example_resources ! 1) [1, 2, 255])) = 3
    \<and> decode_hex_data (array_literal (definition_of python_latin1 (example_resources ! 1) [1, 2, 255]))
       = Some [1, 2, 255]"
    by force
  have size: "size_field (definition_of python_latin1 (example_resources ! 1) [1, 2, 255]) = lit ''3''"
    by code_simp
  have literal: "array_literal (definition_of python_latin1 (example_resources ! 1) [1, 2, 255])
       = lit ''0x01, 0x02, 0xff''"
    by code_simp
  from ok bytes size literal readback show ?thesis by blast
qed

text \<open>
  Claim C2, amended. Whenever the sanitizer returns, the identifier is the sanitized stem,
  after \<^verbatim>\<open>res_\<close> when the sanitized stem does not start with a letter, then an underscore and the
  first eight hexadecimal digits of the MD5 digest of the whole name. It starts with a letter
  and holds only alphanumerics and underscores, as \<^verbatim>\<open>str.isalpha\<close> and \<^verbatim>\<open>str.isalnum\<close> classify
  the characters of Unicode. When the stem is ASCII the identifier matches
  \<^verbatim>\<open>[A-Za-z_][A-Za-z0-9_]*\<close>.
\<close>

theorem sanitize_identifier_form:
  assumes "sanitize_identifier P name = Inr ident"
  shows "\<exists>pre sanitized digest bs.
           ident = pre @ sanitized @ lit ''_'' @ digest
         \<and> sanitized = map (\<lambda>c. if isalnum P c \<or> c = 95 then c else 95) (name_stem (path_name name))
         \<and> sanitized \<noteq> []
         \<and> (pre = [] \<and> isalpha P (hd sanitized) \<or> pre = lit ''res_'' \<and> \<not> isalpha P (hd sanitized))
         \<and> utf8_encode name = Inr bs \<and> digest = take 8 (hexdigest (md5 bs))
         \<and> length digest = 8 \<and> list_all is_hex digest
         \<and> identifier_shape P ident
         \<and> (list_all (\<lambda>c. c < 128) (name_stem (path_name name)) \<longrightarrow> symbol_grammar ident)"
proof -
  let ?f = "\<lambda>c. if isalnum P c \<or> c = 95 then c else 95"
  let ?stem = "name_stem (path_name name)"
  from assms sanitize_identifier_returns_iff [of P name]
  have ne: "?stem \<noteq> []" and "list_all encodable name" by blast+
  then obtain bs where bs: "utf8_encode name = Inr bs"
    using utf8_encode_succeeds_iff [of name] by (auto simp: list_all_iff)
  from ne obtain c cs where stem: "?stem = c # cs" by (cases ?stem) auto
  define digest where "digest = take 8 (hexdigest (md5 bs))"
  define pre where "pre = (if isalpha P (?f c) then [] else lit ''res_'')"
  have digest: "length digest = 8" "list_all is_hex digest"
    using hash_suffix_shape [of bs] by (simp_all add: digest_def)
  from sanitize_identifier_value [OF bs stem, of P] assms
  have ident: "ident = pre @ map ?f ?stem @ lit ''_'' @ digest"
    by (simp add: pre_def digest_def stem)
  have tail: "list_all (\<lambda>c. isalnum P c \<or> c = 95) (map ?f cs @ lit ''_'' @ digest)"
    using digest(2) by (auto simp: list_all_iff lit_simps is_hex_isalnum)
  have shape: "identifier_shape P ident"
  proof (cases "isalpha P (?f c)")
    case True
    with tail show ?thesis
      by (simp add: ident pre_def stem identifier_shape_def)
  next
    case False
    with tail res_prefix(1,2) [of P] show ?thesis
      by (simp add: ident pre_def stem identifier_shape_def lit_simps)
  qed
  have ascii: "symbol_grammar ident" if "list_all (\<lambda>c. c < 128) ?stem"
  proof -
    from that have small: "c < 128" "\<forall>x \<in> set cs. x < 128"
      by (simp_all add: stem list_all_iff)
    have rest: "list_all (\<lambda>c. ascii_letter c \<or> ascii_digit c \<or> c = 95) (map ?f cs @ lit ''_'' @ digest)"
      using digest(2) small(2) by (auto simp: list_all_iff lit_simps dest: is_hex_grammar isalnum_ascii)
    have first: "ascii_letter (?f c) \<or> ascii_digit (?f c) \<or> ?f c = 95"
      using small(1) isalnum_ascii [of c P] by auto
    show ?thesis
    proof (cases "isalpha P (?f c)")
      case True
      with small(1) have "ascii_letter (?f c)"
        using isalpha_ascii [of "?f c" P] by (auto split: if_splits)
      with rest True show ?thesis
        by (simp add: ident pre_def stem symbol_grammar_def)
    next
      case False
      with rest first res_prefix(3,4) show ?thesis
        by (simp add: ident pre_def stem symbol_grammar_def lit_simps)
    qed
  qed
  have pre: "pre = [] \<and> isalpha P (hd (map ?f ?stem)) \<or> pre = lit ''res_'' \<and> \<not> isalpha P (hd (map ?f ?stem))"
    by (simp add: pre_def stem lit_simps)
  from ne have "map ?f ?stem \<noteq> []" by simp
  with ident pre bs digest shape ascii digest_def show ?thesis by blast
qed

theorem sanitize_identifier_form_witness:
  "sanitize_identifier python_latin1 (lit ''assets/icons/a@2x.png'') = Inr (lit ''a_2x_eadcf878'')
   \<and> symbol_grammar (lit ''a_2x_eadcf878'')
   \<and> identifier_shape python_latin1 (lit ''a_2x_eadcf878'')"
proof -
  have run: "sanitize_identifier python_latin1 (lit ''assets/icons/a@2x.png'') = Inr (lit ''a_2x_eadcf878'')"
    by code_simp
  have ascii: "list_all (\<lambda>c. c < 128) (name_stem (path_name (lit ''assets/icons/a@2x.png'')))"
    by code_simp
  from sanitize_identifier_form [OF run] ascii
  have "symbol_grammar (lit ''a_2x_eadcf878'') \<and> identifier_shape python_latin1 (lit ''a_2x_eadcf878'')"
    by blast
  with run show ?thesis by blast
qed

text \<open>
  The claim as stated fails on \<^verbatim>\<open>'\xe9.png'\<close>: \<^verbatim>\<open>'\xe9'.isalnum()\<close> and \<^verbatim>\<open>'\xe9'.isalpha()\<close> hold, the
  character is kept, and the identifier does not start with an ASCII letter or underscore.
\<close>

theorem sanitize_identifier_grammar_counterexample:
  "sanitize_identifier python_latin1 [233, 46, 112, 110, 103] = Inr (233 # lit ''_3fe1bfd5'')
   \<and> \<not> symbol_grammar (233 # lit ''_3fe1bfd5'')"
proof
  show "sanitize_identifier python_latin1 [233, 46, 112, 110, 103] = Inr (233 # lit ''_3fe1bfd5'')"
    by code_simp
  show "\<not> symbol_grammar (233 # lit ''_3fe1bfd5'')"
    by (simp add: symbol_grammar_def ascii_letter_def)
qed

text \<open>
  Claim C3. The identifiers of the mapping a collection run returns are pairwise distinct,
  and the mapping has one entry for each file the walk yields that is taken, in the order of
  the walk: no entry replaces another. The identifier of an entry is the base identifier the
  sanitizer gives its normalized path when no earlier entry has it; otherwise it is the base
  identifier with \<^verbatim>\<open>_k\<close> appended, for the first \<open>k\<close> from 1 on that no earlier entry has, the
  candidates before it being all taken.
\<close>

theorem collect_resources_unique_identifiers:
  assumes "collect_resources P fs dir = Inr rs"
  shows "distinct (dict_keys rs)
       \<and> map (\<lambda>r. fst (snd r)) rs = map fst (filter eligible (walked fs dir))
       \<and> (\<forall>i < length rs. \<exists>base.
             sanitize_identifier P (fst (snd (snd (rs ! i)))) = Inr base
           \<and> (base \<notin> set (dict_keys (take i rs)) \<longrightarrow> fst (rs ! i) = base)
           \<and> (base \<in> set (dict_keys (take i rs)) \<longrightarrow>
                (\<exists>k \<ge> 1. fst (rs ! i) = suffixed base k
                    \<and> suffixed base k \<notin> set (dict_keys (take i rs))
                    \<and> (\<forall>j. 1 \<le> j \<and> j < k \<longrightarrow> suffixed base j \<in> set (dict_keys (take i rs))))))"
proof -
  from assms have loop: "collect_loop P dir [] (walked fs dir) = Inr rs"
    by (simp add: collect_resources_walked)
  note inv = collect_loop_invariant [OF loop]
  have keys: "\<exists>base.
             sanitize_identifier P (fst (snd (snd (rs ! i)))) = Inr base
           \<and> (base \<notin> set (dict_keys (take i rs)) \<longrightarrow> fst (rs ! i) = base)
           \<and> (base \<in> set (dict_keys (take i rs)) \<longrightarrow>
                (\<exists>k \<ge> 1. fst (rs ! i) = suffixed base k
                    \<and> suffixed base k \<notin> set (dict_keys (take i rs))
                    \<and> (\<forall>j. 1 \<le> j \<and> j < k \<longrightarrow> suffixed base j \<in> set (dict_keys (take i rs)))))"
    if "i < length rs" for i
  proof -
    from inv that have "entry_ok P dir (take i rs) (rs ! i)" by blast
    then obtain base where base: "sanitize_identifier P (fst (snd (snd (rs ! i)))) = Inr base"
        and key: "fst (rs ! i) = resolve_collision (take i rs) base base 1"
      by (cases "rs ! i") (auto simp: entry_ok_def)
    from resolve_collision_result [of 1 "take i rs" base base] key
    obtain k where "1 \<le> k"
      "fst (rs ! i) = (if base \<in> set (dict_keys (take i rs)) then suffixed base k else base)"
      "fst (rs ! i) \<notin> set (dict_keys (take i rs))"
      "\<forall>j. 1 \<le> j \<and> j < k \<longrightarrow> suffixed base j \<in> set (dict_keys (take i rs))"
      by auto
    with base show ?thesis by (cases "base \<in> set (dict_keys (take i rs))") auto
  qed
  from inv keys show ?thesis by blast
qed

theorem collect_resources_unique_identifiers_witness:
  "collect_resources python_latin1 collision_tree [lit ''res''] =
     Inr [(lit ''icon_f1c3ea9c'', [lit ''res'', lit ''d70884'', lit ''icon.png''], lit ''d70884/icon.png'', Float 1),
          (lit ''icon_f1c3ea9c_1'', [lit ''res'', lit ''d91691'', lit ''icon.png''], lit ''d91691/icon.png'', Float 1)]
   \<and> sanitize_identifier python_latin1 (lit ''d70884/icon.png'') = Inr (lit ''icon_f1c3ea9c'')
   \<and> sanitize_identifier python_latin1 (lit ''d91691/icon.png'') = Inr (lit ''icon_f1c3ea9c'')
   \<and> distinct [lit ''icon_f1c3ea9c'', lit ''icon_f1c3ea9c_1'']"
proof -
  have run: "collect_resources python_latin1 collision_tree [lit ''res''] =
     Inr [(lit ''icon_f1c3ea9c'', [lit ''res'', lit ''d70884'', lit ''icon.png''], lit ''d70884/icon.png'', Float 1),
          (lit ''icon_f1c3ea9c_1'', [lit ''res'', lit ''d91691'', lit ''icon.png''], lit ''d91691/icon.png'', Float 1)]"
    by code_simp
  have base1: "sanitize_identifier python_latin1 (lit ''d70884/icon.png'') = Inr (lit ''icon_f1c3ea9c'')"
    by code_simp
  have base2: "sanitize_identifier python_latin1 (lit ''d91691/icon.png'') = Inr (lit ''icon_f1c3ea9c'')"
    by code_simp
  from collect_resources_unique_identifiers [OF run]
  have "distinct [lit ''icon_f1c3ea9c'', lit ''icon_f1c3ea9c_1'']"
    by (simp add: dict_keys_def)
  with run base1 base2 show ?thesis by blast
qed

text \<open>
  Claim C4, amended. When the output directory can be made, the collection run returns and
  the file of one of its resources cannot be read, the run fails; the source artifact and
  the index are not written. The header is emitted before the source emitter reads any
  file: when it can be written it has been written, and it stays, and the run fails with the
  error of the read. When the header file cannot be opened the run fails there and writes
  nothing; when its text cannot be encoded the run fails there and leaves the header empty.
\<close>

theorem main_unreadable_file:
  assumes "mkdir_ok w" and "collect_resources P (tree w) (input_dir a) = Inr resources"
      and "r \<in> set resources" and "read_bytes (tree w) (fst (snd r)) = Inl err"
  shows "fst (main P a w) =
           Some (if writable w (header_file a)
                    \<and> isl (utf8_encode (header_content resources (namespace a)))
                 then UnicodeEncodeError else OSError)
       \<and> outputs (snd (main P a w)) =
           (if writable w (header_file a)
            then dict_set (outputs w) (header_file a)
                   (Text (if isl (utf8_encode (header_content resources (namespace a))) then []
                          else header_content resources (namespace a)))
            else outputs w)"
proof -
  let ?hc = "header_content resources (namespace a)"
  consider (closed) "\<not> writable w (header_file a)"
    | (broken) "writable w (header_file a)" "isl (utf8_encode ?hc)"
    | (written) "writable w (header_file a)" "\<not> isl (utf8_encode ?hc)"
    by blast
  then show ?thesis
  proof cases
    case closed
    with assms(1,2) show ?thesis
      by (simp add: main_def generate_header_def write_text_def)
  next
    case broken
    from broken(2) obtain e where e: "utf8_encode ?hc = Inl e" by (cases "utf8_encode ?hc") auto
    then have "e = UnicodeEncodeError"
      using utf8_encode_cases [of ?hc] by auto
    with assms(1,2) broken e show ?thesis
      by (simp add: main_def generate_header_def write_text_def)
  next
    case written
    define w1 where "w1 = w\<lparr>outputs := dict_set (outputs w) (header_file a) (Text ?hc)\<rparr>"
    from written have header: "generate_header resources (namespace a) (header_file a) w = (None, w1)"
      by (cases "utf8_encode ?hc") (simp_all add: generate_header_def write_text_def w1_def)
    have "tree w1 = tree w" by (simp add: w1_def)
    with assms(3,4) have "source_definitions P (tree w1)
        (source_prologue (namespace a) (header_file a)) resources = Inl OSError"
      by (simp add: source_definitions_fails)
    then have "generate_source P resources (namespace a) (header_file a) (source_file a) w1
        = (Some OSError, w1)"
      by (simp add: generate_source_def source_content_def)
    with assms(1,2) header have "main P a w = (Some OSError, w1)"
      by (simp add: main_def)
    with written show ?thesis by (simp add: w1_def)
  qed
qed

theorem main_unreadable_file_witness:
  "fst (main python_latin1 example_args unreadable_world) = Some OSError
   \<and> outputs (snd (main python_latin1 example_args unreadable_world)) =
       [(lit ''embedded_resources.h'',
         Text (header_content
           [(lit ''plain_33c11a06'', [lit ''res'', lit ''plain.png''], lit ''plain.png'', Float 1)]
           (lit ''Resources'')))]"
proof -
  let ?r = "(lit ''plain_33c11a06'', [lit ''res'', lit ''plain.png''], lit ''plain.png'', Float 1)"
  have dir: "mkdir_ok unreadable_world" by (simp add: unreadable_world_def)
  have mem: "?r \<in> set [?r]" by simp
  have unreadable: "read_bytes (tree unreadable_world) (fst (snd ?r)) = Inl OSError"
    by code_simp
  have out: "writable unreadable_world (header_file example_args)" "outputs unreadable_world = []"
    "header_file example_args = lit ''embedded_resources.h''"
    "namespace example_args = lit ''Resources''"
    by (simp_all add: unreadable_world_def example_args_def)
  have "list_all encodable (header_content [?r] (lit ''Resources''))"
    by (intro header_content_encodable) (simp_all add: dict_keys_def lit_encodable)
  then have encoded: "\<not> isl (utf8_encode (header_content [?r] (lit ''Resources'')))"
    by (simp add: isl_utf8_encode)
  from main_unreadable_file [OF dir unreadable_collected mem unreadable] out encoded
  show ?thesis by simp
qed

text \<open>
  The claim as stated fails on a run whose only asset cannot be read: nothing was in the
  output directory before, the run fails, and the header is there after it.
\<close>

theorem main_partial_output_counterexample:
  "read_bytes (tree unreadable_world) [lit ''res'', lit ''plain.png''] = Inl OSError
   \<and> outputs unreadable_world = []
   \<and> fst (main python_latin1 example_args unreadable_world) = Some OSError
   \<and> dict_keys (outputs (snd (main python_latin1 example_args unreadable_world)))
       = [lit ''embedded_resources.h'']"
proof -
  have "read_bytes (tree unreadable_world) [lit ''res'', lit ''plain.png''] = Inl OSError"
    by code_simp
  moreover have "outputs unreadable_world = []"
    by (simp add: unreadable_world_def)
  ultimately show ?thesis
    by (simp add: unreadable_main dict_keys_def)
qed

text \<open>
  Claim C5, amended. The parser returns the number written by the digits of the leftmost
  marker in the filename, as a float, wherever the marker stands and whatever follows its
  extension, and 1.0 when the filename holds no marker; so a result other than 1.0 comes from
  a marker. The digits are not validated: they write any number, as \<^verbatim>\<open>str\<close> writes it. As a
  float the number is itself up to \<open>2\<^sup>5\<^sup>3\<close>; beyond, it is rounded, by at most one part in
  \<open>2\<^sup>5\<^sup>3\<close>, and from \<open>2\<^sup>1\<^sup>0\<^sup>2\<^sup>4\<close> on it is \<^verbatim>\<open>inf\<close>.
\<close>

theorem parse_design_scale_leftmost_marker:
  "(marker_at P filename i digits \<and> (\<forall>j < i. \<forall>ds. \<not> marker_at P filename j ds)
      \<longrightarrow> parse_design_scale P filename = float_of_nat (int_of_digits P digits))
   \<and> ((\<forall>i ds. \<not> marker_at P filename i ds) \<longrightarrow> parse_design_scale P filename = Float 1)
   \<and> (parse_design_scale P filename \<noteq> Float 1 \<longrightarrow> (\<exists>i ds. marker_at P filename i ds))
   \<and> int_of_digits P (str_nat n) = n
   \<and> (n \<le> 2 ^ 53 \<longrightarrow> float_of_nat n = Float (real n))
   \<and> (float_of_nat n = Float x \<longrightarrow> \<bar>x - real n\<bar> * 2 ^ 53 \<le> real n)
   \<and> (2 ^ 1024 \<le> n \<longrightarrow> float_of_nat n = Infinity)"
proof -
  have found: "parse_design_scale P filename = float_of_nat (int_of_digits P digits)"
    if "marker_at P filename i digits" "\<forall>j < i. \<forall>ds. \<not> marker_at P filename j ds"
  proof -
    from that have "re_search P filename = Some digits"
      unfolding re_search_Some_iff by blast
    then show ?thesis by (simp add: parse_design_scale_def)
  qed
  have none: "parse_design_scale P filename = Float 1" if "\<forall>i ds. \<not> marker_at P filename i ds"
  proof -
    from that have "re_search P filename = None" by (simp add: re_search_None_iff)
    then show ?thesis by (simp add: parse_design_scale_def)
  qed
  from found none int_of_digits_str_nat [of P n] float_of_nat_exact [of n]
    float_of_nat_near [of n x] float_of_nat_overflow [of n]
  show ?thesis by blast
qed

theorem parse_design_scale_leftmost_marker_witness:
  "marker_at python_latin1 (lit ''icon@2x.png'') 4 (str_nat 2)
   \<and> parse_design_scale python_latin1 (lit ''icon@2x.png'') = Float 2
   \<and> parse_design_scale python_latin1 (lit ''@0x.png'') = Float 0
   \<and> parse_design_scale python_latin1 (lit ''plain.png'') = Float 1
   \<and> marker_at python_latin1 (lit ''@9007199254740993x.png'') 0 (lit ''9007199254740993'')
   \<and> parse_design_scale python_latin1 (lit ''@9007199254740993x.png'') = Float 9007199254740992
   \<and> float_of_nat (2 ^ 1024) = Infinity"
proof -
  have two: "marker_at python_latin1 (lit ''icon@2x.png'') 4 (str_nat 2)"
    unfolding marker_at_match by code_simp
  have before: "\<forall>j < 4. \<forall>ds. \<not> marker_at python_latin1 (lit ''icon@2x.png'') j ds"
  proof (intro allI impI)
    fix j :: nat and ds assume "j < 4"
    then have "j = 0 \<or> j = 1 \<or> j = 2 \<or> j = 3" by auto
    moreover have "match_at python_latin1 (drop 0 (lit ''icon@2x.png'')) = None"
      "match_at python_latin1 (drop 1 (lit ''icon@2x.png'')) = None"
      "match_at python_latin1 (drop 2 (lit ''icon@2x.png'')) = None"
      "match_at python_latin1 (drop 3 (lit ''icon@2x.png'')) = None"
      by code_simp+
    ultimately show "\<not> marker_at python_latin1 (lit ''icon@2x.png'') j ds"
      unfolding marker_at_match by auto
  qed
  have zero: "marker_at python_latin1 (lit ''@0x.png'') 0 (str_nat 0)"
    unfolding marker_at_match by code_simp
  have plain: "\<forall>i ds. \<not> marker_at python_latin1 (lit ''plain.png'') i ds"
    unfolding re_search_None_iff [symmetric] by code_simp
  have big: "marker_at python_latin1 (lit ''@9007199254740993x.png'') 0 (lit ''9007199254740993'')"
    unfolding marker_at_match by code_simp
  have digits: "int_of_digits python_latin1 (lit ''9007199254740993'') = 9007199254740993"
    by (simp add: int_of_digits_def decimal_value_def lit_def)
  from two before
    parse_design_scale_leftmost_marker [of python_latin1 "lit ''icon@2x.png''" 4 "str_nat 2" 2 2]
  have 1: "parse_design_scale python_latin1 (lit ''icon@2x.png'') = Float 2" by simp
  from zero
    parse_design_scale_leftmost_marker [of python_latin1 "lit ''@0x.png''" 0 "str_nat 0" 0 0]
  have 2: "parse_design_scale python_latin1 (lit ''@0x.png'') = Float 0" by simp
  from plain
    parse_design_scale_leftmost_marker [of python_latin1 "lit ''plain.png''" 0 "[]" 0 0]
  have 3: "parse_design_scale python_latin1 (lit ''plain.png'') = Float 1" by blast
  from big digits
    parse_design_scale_leftmost_marker [of python_latin1 "lit ''@9007199254740993x.png''" 0
      "lit ''9007199254740993''" 0 0]
  have 4: "parse_design_scale python_latin1 (lit ''@9007199254740993x.png'')
      = Float 9007199254740992"
    by (simp add: float_of_nat_rounds)
  from parse_design_scale_leftmost_marker [of python_latin1 "[]" 0 "[]" "2 ^ 1024" 0]
  have 5: "float_of_nat (2 ^ 1024) = Infinity" by simp
  from two 1 2 3 big 4 5 show ?thesis by blast
qed

text \<open>
  The claim as stated asks for a trailing marker. \<^verbatim>\<open>re.search\<close> has no anchor: in
  \<^verbatim>\<open>a@2x.png.txt\<close> no marker is trailing, the filename does not end in an image extension, and
  the result is 2.
\<close>

theorem parse_design_scale_trailing_counterexample:
  "\<not> has_trailing_marker python_latin1 (lit ''a@2x.png.txt'')
   \<and> parse_design_scale python_latin1 (lit ''a@2x.png.txt'') = Float 2"
proof
  have "\<not> list_ex (\<lambda>e. list_all2 ci_char e
          (drop (length (lit ''a@2x.png.txt'') - length e) (lit ''a@2x.png.txt''))) image_extensions"
    by code_simp
  then show "\<not> has_trailing_marker python_latin1 (lit ''a@2x.png.txt'')"
    using trailing_ends_with_extension by blast
  have "re_search python_latin1 (lit ''a@2x.png.txt'') = Some (str_nat 2)"
    by code_simp
  then show "parse_design_scale python_latin1 (lit ''a@2x.png.txt'') = Float 2"
    by (simp add: parse_design_scale_def int_of_digits_str_nat float_of_nat_exact)
qed

text \<open>
  Claim C6. If the input directory does not exist, the collector returns the empty mapping
  and raises no error.
\<close>

theorem collect_resources_missing_directory:
  "lookup fs dir = None \<Longrightarrow> collect_resources P fs dir = Inr []"
  by (simp add: collect_resources_def)

theorem collect_resources_missing_directory_witness:
  "lookup example_tree [lit ''missing''] = None
   \<and> collect_resources python_latin1 example_tree [lit ''missing''] = Inr []"
proof -
  have missing: "lookup example_tree [lit ''missing''] = None"
    by code_simp
  from collect_resources_missing_directory [OF missing] missing show ?thesis
    by (rule conjI [rotated])
qed

text \<open>
  Claim C7. In every entry of the mapping a collection run returns, the file path is the
  input directory followed by the components of a non-empty relative path, the recorded
  relative path is these components joined by forward slashes, and the design scale is what
  the scale parser gives the last component. The components are the names the directories
  list, so the recorded path does not depend on how the host writes a path. The nested file
  \<^verbatim>\<open>assets/icons/a@2x.png\<close> is recorded as \<^verbatim>\<open>assets/icons/a@2x.png\<close> with design scale 2.
\<close>

theorem collect_resources_relative_paths:
  assumes "collect_resources P fs dir = Inr rs"
  shows "\<forall>(ident, file_path, normalized_path, design_scale) \<in> set rs.
           \<exists>rel. rel \<noteq> [] \<and> file_path = dir @ rel
             \<and> normalized_path = join (lit ''/'') rel
             \<and> design_scale = parse_design_scale P (last rel)"
proof (clarify)
  fix ident file_path normalized_path design_scale
  assume "(ident, file_path, normalized_path, design_scale) \<in> set rs"
  then obtain i where i: "i < length rs" "rs ! i = (ident, file_path, normalized_path, design_scale)"
    by (auto simp: in_set_conv_nth)
  from collected_entry [OF assms i(1)] i(2)
  obtain rel where rel: "rel \<noteq> []" "file_path = dir @ rel"
      and ok: "entry_ok P dir (take i rs) (ident, file_path, normalized_path, design_scale)"
    by auto
  from ok rel have "normalized_path = join (lit ''/'') rel"
    "design_scale = parse_design_scale P (last rel)"
    by (auto simp: entry_ok_def relative_to_append as_posix_join basename_append)
  with rel show "\<exists>rel. rel \<noteq> [] \<and> file_path = dir @ rel
             \<and> normalized_path = join (lit ''/'') rel
             \<and> design_scale = parse_design_scale P (last rel)"
    by blast
qed

theorem collect_resources_relative_paths_witness:
  "collect_resources python_latin1 example_tree [lit ''res''] =
     Inr [(lit ''plain_33c11a06'', [lit ''res'', lit ''plain.png''], lit ''plain.png'', Float 1),
          (lit ''a_2x_eadcf878'', [lit ''res'', lit ''assets'', lit ''icons'', lit ''a@2x.png''],
           lit ''assets/icons/a@2x.png'', Float 2),
          (lit ''logo_389e3531'', [lit ''res'', lit ''.cache'', lit ''logo.png''],
           lit ''.cache/logo.png'', Float 1)]
   \<and> (\<exists>rel. rel \<noteq> []
         \<and> [lit ''res'', lit ''assets'', lit ''icons'', lit ''a@2x.png''] = [lit ''res''] @ rel
         \<and> lit ''assets/icons/a@2x.png'' = join (lit ''/'') rel
         \<and> Float 2 = parse_design_scale python_latin1 (last rel))"
proof -
  let ?asset = "(lit ''a_2x_eadcf878'', [lit ''res'', lit ''assets'', lit ''icons'', lit ''a@2x.png''],
           lit ''assets/icons/a@2x.png'', Float 2)"
  note all = collect_resources_relative_paths [OF example_run]
  have "?asset \<in> set [(lit ''plain_33c11a06'', [lit ''res'', lit ''plain.png''], lit ''plain.png'', Float 1),
          ?asset,
          (lit ''logo_389e3531'', [lit ''res'', lit ''.cache'', lit ''logo.png''],
           lit ''.cache/logo.png'', Float 1)]"
    by (simp only: list.set insertI1 insertI2)
  from bspec [OF all this]
  have "\<exists>rel. rel \<noteq> []
         \<and> [lit ''res'', lit ''assets'', lit ''icons'', lit ''a@2x.png''] = [lit ''res''] @ rel
         \<and> lit ''assets/icons/a@2x.png'' = join (lit ''/'') rel
         \<and> Float 2 = parse_design_scale python_latin1 (last rel)"
    by (simp only: prod.case)
  with example_run show ?thesis by (rule conjI)
qed



text \<open>
  Claim C9, amended. The sanitizer returns an identifier exactly for the names whose stem is
  not empty and whose characters all have a UTF-8 encoding, that is, that hold no lone
  surrogate. A name with a character that has none raises \<^verbatim>\<open>UnicodeEncodeError\<close>, whatever its
  stem. The sanitizer fails by indexing the first character of an empty string exactly when
  the stem is empty. Under the collector's use, on the POSIX form of a relative path whose
  last component is a non-empty name without a slash that does not start with a dot, the
  indexing does not fail.
\<close>

theorem sanitize_identifier_outcomes:
  "((\<exists>ident. sanitize_identifier P name = Inr ident)
      = (name_stem (path_name name) \<noteq> [] \<and> list_all encodable name))
   \<and> ((sanitize_identifier P name = Inl UnicodeEncodeError) = (\<not> list_all encodable name))
   \<and> ((sanitize_identifier P name = Inl IndexError) = (name_stem (path_name name) = []))
   \<and> (rel \<noteq> [] \<and> last rel \<noteq> [] \<and> 47 \<notin> set (last rel) \<and> \<not> startswith (last rel) (lit ''.'')
        \<longrightarrow> sanitize_identifier P (as_posix rel) \<noteq> Inl IndexError)"
  using sanitize_identifier_returns_iff [of P name]
    sanitize_identifier_UnicodeEncodeError_iff [of P name]
    sanitize_identifier_IndexError_iff [of P name]
    sanitize_identifier_of_file [of rel P]
  by blast

theorem sanitize_identifier_outcomes_witness:
  "(\<exists>ident. sanitize_identifier python_latin1 (lit ''a@2x.png'') = Inr ident)
   \<and> sanitize_identifier python_latin1 (lit ''./'') = Inl IndexError
   \<and> sanitize_identifier python_latin1 [0xDC80, 46, 112, 110, 103] = Inl UnicodeEncodeError
   \<and> sanitize_identifier python_latin1 (as_posix [lit ''icons'', lit ''a@2x.png'']) \<noteq> Inl IndexError"
proof -
  have stem: "name_stem (path_name (lit ''a@2x.png'')) \<noteq> []"
    by code_simp
  have enc: "list_all encodable (lit ''a@2x.png'')"
    by (simp add: lit_def encodable_def)
  have empty: "name_stem (path_name (lit ''./'')) = []"
    by code_simp
  have surrogate: "\<not> list_all encodable [0xDC80, 46, 112, 110, 103]"
    by (simp add: encodable_def)
  have asset: "[lit ''icons'', lit ''a@2x.png''] \<noteq> []
      \<and> last [lit ''icons'', lit ''a@2x.png''] \<noteq> []
      \<and> 47 \<notin> set (last [lit ''icons'', lit ''a@2x.png''])
      \<and> \<not> startswith (last [lit ''icons'', lit ''a@2x.png'']) (lit ''.'')"
    by code_simp
  from stem enc sanitize_identifier_outcomes [of python_latin1 "lit ''a@2x.png''" "[lit ''icons'', lit ''a@2x.png'']"]
  have 1: "\<exists>ident. sanitize_identifier python_latin1 (lit ''a@2x.png'') = Inr ident"
    by blast
  from asset sanitize_identifier_outcomes [of python_latin1 "lit ''a@2x.png''" "[lit ''icons'', lit ''a@2x.png'']"]
  have 4: "sanitize_identifier python_latin1 (as_posix [lit ''icons'', lit ''a@2x.png'']) \<noteq> Inl IndexError"
    by blast
  from empty sanitize_identifier_outcomes [of python_latin1 "lit ''./''" "[]"]
  have 2: "sanitize_identifier python_latin1 (lit ''./'') = Inl IndexError"
    by blast
  from surrogate sanitize_identifier_outcomes [of python_latin1 "[0xDC80, 46, 112, 110, 103]" "[]"]
  have 3: "sanitize_identifier python_latin1 [0xDC80, 46, 112, 110, 103] = Inl UnicodeEncodeError"
    by blast
  from 1 2 3 4 show ?thesis by blast
qed

text \<open>
  The claim as stated fails on the name of a file whose bytes are \<^verbatim>\<open>80 2E 70 6E 67\<close>, which Python
  reads as \<^verbatim>\<open>'\udc80.png'\<close>: the stem is not empty and the sanitizer raises.
\<close>

theorem sanitize_identifier_surrogate_counterexample:
  "name_stem (path_name [0xDC80, 46, 112, 110, 103]) \<noteq> []
   \<and> sanitize_identifier python_latin1 [0xDC80, 46, 112, 110, 103] = Inl UnicodeEncodeError"
proof
  show "name_stem (path_name [0xDC80, 46, 112, 110, 103]) \<noteq> []"
    by (simp add: name_stem_def path_name_def rfind_def lit_def)
  show "sanitize_identifier python_latin1 [0xDC80, 46, 112, 110, 103] = Inl UnicodeEncodeError"
    by (simp add: sanitize_identifier_def utf8_char_def)
qed

text \<open>
  Claim C10. Every regular file the walk yields whose own name does not start with a dot is
  in the mapping a collection run returns. The walk reaches a file below the input directory
  whatever the names of the directories on the way to it, when they may be listed and none
  below the input directory is a link: a file in a hidden directory is collected. The own
  name of every collected file does not start with a dot.
\<close>

theorem collect_resources_hidden_directories:
  assumes "collect_resources P fs dir = Inr rs"
  shows "(\<forall>f \<in> set (walked fs dir).
            is_file (snd f) \<and> \<not> startswith (basename (fst f)) (lit ''.'')
            \<longrightarrow> fst f \<in> set (map (\<lambda>r. fst (snd r)) rs))
       \<and> (lookup fs dir = Some below \<and> reached below rel
            \<and> lookup below rel = Some (File readable data mtime)
            \<and> rel \<noteq> [] \<and> \<not> startswith (last rel) (lit ''.'')
          \<longrightarrow> dir @ rel \<in> set (map (\<lambda>r. fst (snd r)) rs))
       \<and> (\<forall>r \<in> set rs. \<not> startswith (basename (fst (snd r))) (lit ''.''))"
proof -
  from assms have loop: "collect_loop P dir [] (walked fs dir) = Inr rs"
    by (simp add: collect_resources_walked)
  note inv = collect_loop_invariant [OF loop]
  have taken: "fst f \<in> set (map (\<lambda>r. fst (snd r)) rs)"
    if "f \<in> set (walked fs dir)" "is_file (snd f)" "\<not> startswith (basename (fst f)) (lit ''.'')"
    for f
  proof -
    from that(2,3) have "eligible f" by (simp add: eligible_def)
    with that(1) have "fst f \<in> set (map fst (filter eligible (walked fs dir)))" by simp
    with inv show ?thesis by simp
  qed
  have included: "dir @ rel \<in> set (map (\<lambda>r. fst (snd r)) rs)"
    if "lookup fs dir = Some below" "reached below rel"
      "lookup below rel = Some (File readable data mtime)"
      "rel \<noteq> []" "\<not> startswith (last rel) (lit ''.'')"
  proof -
    from that(2,3,4) have "(dir @ rel, File readable data mtime) \<in> set (rglob dir below)"
      by (rule rglob_reached)
    with that(1) have "(dir @ rel, File readable data mtime) \<in> set (walked fs dir)"
      by (simp add: walked_def)
    from taken [OF this] that(4,5) show ?thesis
      by (simp add: basename_append)
  qed
  have visible: "\<not> startswith (basename (fst (snd r))) (lit ''.'')" if "r \<in> set rs" for r
  proof -
    from that have "fst (snd r) \<in> set (map (\<lambda>r. fst (snd r)) rs)" by simp
    with inv have "fst (snd r) \<in> set (map fst (filter eligible (walked fs dir)))" by simp
    then show ?thesis by (auto simp: eligible_def)
  qed
  from taken included visible show ?thesis by blast
qed

theorem collect_resources_hidden_directories_witness:
  "startswith (lit ''.cache'') (lit ''.'')
   \<and> lookup example_tree [lit ''res'', lit ''.cache'', lit ''logo.png''] = Some (File True [7] 5)
   \<and> ([lit ''res'', lit ''.cache'', lit ''logo.png''], File True [7] 5)
       \<in> set (walked example_tree [lit ''res''])
   \<and> [lit ''res'', lit ''.cache'', lit ''logo.png''] \<in> set (map (\<lambda>r. fst (snd r)) example_resources)
   \<and> \<not> startswith (basename [lit ''res'', lit ''.cache'', lit ''logo.png'']) (lit ''.'')"
proof -
  let ?below = "Dir True False
           [(lit ''assets'',
             Dir True False
               [(lit ''icons'',
                 Dir True False [(lit ''a@2x.png'', File True [1, 2, 255] 5)] (0, 0))] (0, 0)),
            (lit ''.cache'',
             Dir True False
               [(lit ''logo.png'', File True [7] 5), (lit ''.keep'', File True [] 5)] (0, 0)),
            (lit ''plain.png'', File True [] 6),
            (lit ''socket'', Special (0, 0))] (0, 0)"
  let ?logo = "[lit ''res'', lit ''.cache'', lit ''logo.png'']"
  have run: "collect_resources python_latin1 example_tree [lit ''res''] = Inr example_resources"
    using example_run by (simp add: example_resources_def)
  have hidden: "startswith (lit ''.cache'') (lit ''.'')" by code_simp
  have below: "lookup example_tree [lit ''res''] = Some ?below"
    by (simp add: example_tree_def)
  have logo: "lookup ?below [lit ''.cache'', lit ''logo.png''] = Some (File True [7] 5)"
    by (simp add: lit_def)
  have way: "reached ?below [lit ''.cache'', lit ''logo.png'']"
    by (simp add: lit_def)
  have name: "[lit ''.cache'', lit ''logo.png''] \<noteq> []
      \<and> \<not> startswith (last [lit ''.cache'', lit ''logo.png'']) (lit ''.'')"
    by code_simp
  have whole: "lookup example_tree ?logo = Some (File True [7] 5)"
    by (simp add: example_tree_def lit_def)
  have walk: "(?logo, File True [7] 5) \<in> set (walked example_tree [lit ''res''])"
    by (simp add: walked_def example_tree_def lit_def)
  have visible: "is_file (snd (?logo, File True [7] 5))
      \<and> \<not> startswith (basename (fst (?logo, File True [7] 5))) (lit ''.'')"
    by code_simp
  note claim = collect_resources_hidden_directories [OF run, of ?below
      "[lit ''.cache'', lit ''logo.png'']" True "[7]" 5]
  from bspec [OF conjunct1 [OF claim] walk] visible
  have walked: "?logo \<in> set (map (\<lambda>r. fst (snd r)) example_resources)"
    by simp
  from name have name1: "[lit ''.cache'', lit ''logo.png''] \<noteq> []"
    and name2: "\<not> startswith (last [lit ''.cache'', lit ''logo.png'']) (lit ''.'')"
    by (rule conjunct1, rule conjunct2)
  from conjI [OF below conjI [OF way conjI [OF logo conjI [OF name1 name2]]]]
  have found: "[lit ''res''] @ [lit ''.cache'', lit ''logo.png'']
      \<in> set (map (\<lambda>r. fst (snd r)) example_resources)"
    by (rule mp [OF conjunct1 [OF conjunct2 [OF claim]]])
  have "(lit ''logo_389e3531'', ?logo, lit ''.cache/logo.png'', Float 1) \<in> set example_resources"
    by (simp add: example_resources_def)
  from bspec [OF conjunct2 [OF conjunct2 [OF claim]] this]
  have shown: "\<not> startswith (basename ?logo) (lit ''.'')"
    by simp
  from hidden whole walk walked shown show ?thesis by (intro conjI)
qed

end
